theory Spec2Isabelle
  imports Main "HOL-Library.Sublist"
begin

section \<open>Data model of \<^verbatim>\<open>Examples/Looper/Looper.cpp\<close>\<close>

text \<open>
  \<^verbatim>\<open>Ticket\<close>, \<^verbatim>\<open>Timepoint\<close> and the chrono durations are declared in
  \<^verbatim>\<open>Looper.h\<close>, which is not among the sources. Tickets are integers; time
  points and durations are integer counts of one common clock unit (chrono converts
  between units by itself, so \<^verbatim>\<open>triggerTime += interval\<close> is an addition of
  such counts). Signed overflow of a tick count is undefined in C++ and is outside
  this model.
\<close>

type_synonym Ticket = int
type_synonym Timepoint = int
type_synonym milliseconds = int

text \<open>
  Modelled from the spec: \<^verbatim>\<open>Timepoint::max()\<close>. The declaration of
  \<^verbatim>\<open>Timepoint\<close> is missing from the sources; the spec calls the value "the
  maximal Timepoint". It is taken as the largest signed 64-bit tick count. The
  theorems below use only that no trigger time exceeds it.
\<close>

definition Timepoint_max :: Timepoint where
  "Timepoint_max = 9223372036854775807"

text \<open>
  A \<^verbatim>\<open>RepeatingAction\<close> is a \<^verbatim>\<open>std::function<bool()>\<close>: opaque code that
  runs on the loop thread, may use the public interface of the looper while it runs
  (\<^verbatim>\<open>schedule\<close>, \<^verbatim>\<open>cancel\<close>, \<^verbatim>\<open>cancelAll\<close>, \<^verbatim>\<open>quit\<close>), and then
  returns its "repeat?" answer or throws. The model of a body gives, for its \<open>k\<close>-th
  invocation, the interface calls it makes, in order, and how it ends. Every run of a
  real closure is of this form, so a theorem for all bodies covers all closures.
\<close>

datatype outcome = Return bool | Throw

datatype call =
    Schedule "nat \<Rightarrow> call list \<times> outcome" Timepoint milliseconds bool
  | Cancel Ticket
  | CancelAll
  | Quit

type_synonym RepeatingAction = "nat \<Rightarrow> call list \<times> outcome"

text \<open>
  \<^verbatim>\<open>struct LoopContext::ManagedAction\<close>. The field \<open>invoked\<close> is not in the
  source: it counts the invocations of the closure so far and stands for the
  closure's own mutable state.
\<close>

record ManagedAction =
  ticket :: Ticket
  action :: RepeatingAction
  invoked :: nat
  interval :: milliseconds
  catchUp :: bool
  triggerTime :: Timepoint
  isCancelled :: bool

text \<open>
  Observable events, newest first. The trace is a ghost field: no operation reads it.
  \<open>Issued t\<close>: a \<^verbatim>\<open>schedule\<close> returned the ticket \<open>t\<close>. \<open>Fired t r\<close>: the
  body of the action with ticket \<open>t\<close> was invoked and ended with \<open>r\<close>.
  \<open>Cancelled t\<close>: \<^verbatim>\<open>cancel(t)\<close> returned true. \<open>CancelledAll\<close>:
  \<^verbatim>\<open>cancelAll()\<close> was called. \<open>QuitCalled\<close>: \<^verbatim>\<open>quit()\<close> was called.
\<close>

datatype event =
  Issued Ticket | Fired Ticket outcome | Cancelled Ticket | CancelledAll | QuitCalled

text \<open>
  The state of one \<^verbatim>\<open>Looper\<close>, with the members of its \<^verbatim>\<open>mContext\<close>
  (\<^verbatim>\<open>detail::LoopContext\<close>) inlined. The two vectors hold pointers; every action
  is owned by exactly one vector slot, so a vector is a list of action values and
  \<^verbatim>\<open>delete\<close> is the removal of the value. \<open>assertFailed\<close> records that the
  \<^verbatim>\<open>assert\<close> of \<^verbatim>\<open>tryCancelPending\<close> or of \<^verbatim>\<open>run\<close> was violated.
  The mutex, the condition variable and the thread id are not state of the model:
  calls of the owning thread and of other threads are told apart by where they occur
  (see \<open>step\<close> and \<open>run\<close>).
\<close>

record Looper =
  mQueuedActions :: "ManagedAction list"
  mPendingActions :: "ManagedAction list"
  mTicketCounter :: Ticket
  mQuit :: bool
  assertFailed :: bool
  trace :: "event list"

text \<open>\<^verbatim>\<open>Looper::Looper\<close> with \<^verbatim>\<open>LoopContext::LoopContext\<close>: the counter starts at 100.\<close>

definition Looper_new :: Looper where
  "Looper_new = \<lparr>mQueuedActions = [], mPendingActions = [], mTicketCounter = 100,
     mQuit = False, assertFailed = False, trace = []\<rparr>"

section \<open>The operations of \<^verbatim>\<open>LoopContext\<close>\<close>

text \<open>\<^verbatim>\<open>ManagedAction::ManagedAction\<close>; \<^verbatim>\<open>scheduleImpl\<close> sets the trigger time.\<close>

definition ManagedAction_new ::
  "Ticket \<Rightarrow> RepeatingAction \<Rightarrow> milliseconds \<Rightarrow> bool \<Rightarrow> Timepoint \<Rightarrow> ManagedAction" where
  "ManagedAction_new t b iv cu trig =
     \<lparr>ticket = t, action = b, invoked = 0, interval = iv, catchUp = cu,
      triggerTime = trig, isCancelled = False\<rparr>"

definition scheduleImpl ::
  "RepeatingAction \<Rightarrow> Timepoint \<Rightarrow> milliseconds \<Rightarrow> bool \<Rightarrow> Looper \<Rightarrow> Ticket \<times> Looper" where
  "scheduleImpl b trig iv cu s =
     (let t = mTicketCounter s + 1;
          sa = ManagedAction_new t b iv cu trig
      in (ticket sa, s\<lparr>mTicketCounter := t, mPendingActions := mPendingActions s @ [sa]\<rparr>))"

text \<open>First loop of \<^verbatim>\<open>queuePending\<close>: survivors of the queue are appended to pending.\<close>

fun requeue :: "ManagedAction list \<Rightarrow> ManagedAction list \<Rightarrow> ManagedAction list" where
  "requeue [] pend = pend"
| "requeue (a # as) pend =
     (if isCancelled a then requeue as pend else requeue as (pend @ [a]))"

text \<open>Second loop of \<^verbatim>\<open>queuePending\<close>.\<close>

fun wakeTime_loop :: "ManagedAction list \<Rightarrow> Timepoint \<Rightarrow> Timepoint" where
  "wakeTime_loop [] w = w"
| "wakeTime_loop (a # as) w =
     (if triggerTime a < w then wakeTime_loop as (triggerTime a) else wakeTime_loop as w)"

definition queuePending :: "Looper \<Rightarrow> Timepoint \<times> Looper" where
  "queuePending s =
     (let pend = requeue (mQueuedActions s) (mPendingActions s);
          s' = s\<lparr>mQueuedActions := pend, mPendingActions := []\<rparr>
      in (wakeTime_loop (mQueuedActions s') Timepoint_max, s'))"

definition hasPending :: "Looper \<Rightarrow> bool" where
  "hasPending s = (mPendingActions s \<noteq> [])"

fun tryCancelQueued_loop :: "Ticket \<Rightarrow> ManagedAction list \<Rightarrow> bool \<times> ManagedAction list" where
  "tryCancelQueued_loop t [] = (False, [])"
| "tryCancelQueued_loop t (a # as) =
     (if ticket a = t then
        (if isCancelled a then (False, a # as)
         else (True, a\<lparr>isCancelled := True\<rparr> # as))
      else (let (r, as') = tryCancelQueued_loop t as in (r, a # as')))"

definition tryCancelQueued :: "Ticket \<Rightarrow> Looper \<Rightarrow> bool \<times> Looper" where
  "tryCancelQueued t s =
     (let (r, q) = tryCancelQueued_loop t (mQueuedActions s)
      in (r, s\<lparr>mQueuedActions := q\<rparr>))"

text \<open>
  The loop of \<^verbatim>\<open>tryCancelPending\<close>: the first action with the ticket, and the
  vector without it.
\<close>

fun tryCancelPending_loop ::
  "Ticket \<Rightarrow> ManagedAction list \<Rightarrow> (ManagedAction \<times> ManagedAction list) option" where
  "tryCancelPending_loop t [] = None"
| "tryCancelPending_loop t (a # as) =
     (if ticket a = t then Some (a, as)
      else (case tryCancelPending_loop t as of
              None \<Rightarrow> None
            | Some (b, as') \<Rightarrow> Some (b, a # as')))"

definition tryCancelPending :: "Ticket \<Rightarrow> Looper \<Rightarrow> bool \<times> Looper" where
  "tryCancelPending t s =
     (case tryCancelPending_loop t (mPendingActions s) of
        None \<Rightarrow> (False, s)
      | Some (a, rest) \<Rightarrow>
          (True, s\<lparr>mPendingActions := rest,
                   assertFailed := (assertFailed s \<or> isCancelled a)\<rparr>))"

definition cancelAllQueued :: "Looper \<Rightarrow> Looper" where
  "cancelAllQueued s =
     s\<lparr>mQueuedActions := map (\<lambda>a. a\<lparr>isCancelled := True\<rparr>) (mQueuedActions s)\<rparr>"

definition cancelAllPending :: "Looper \<Rightarrow> Looper" where
  "cancelAllPending s = s\<lparr>mPendingActions := []\<rparr>"

section \<open>The operations of \<^verbatim>\<open>Looper\<close>\<close>

definition cancel :: "Ticket \<Rightarrow> Looper \<Rightarrow> bool \<times> Looper" where
  "cancel t s =
     (let (didCancel, s1) = tryCancelQueued t s
      in if \<not> didCancel then tryCancelPending t s1 else (didCancel, s1))"

definition cancelAll :: "Looper \<Rightarrow> Looper" where
  "cancelAll s = cancelAllPending (cancelAllQueued s)"

definition quit :: "Looper \<Rightarrow> Looper" where
  "quit s = (cancelAll s)\<lparr>mQuit := True\<rparr>"

text \<open>
  One call of the public interface, with its ghost event. The \<^verbatim>\<open>schedule\<close>
  functions are in \<^verbatim>\<open>Looper.h\<close>; under the mutex they come down to
  \<^verbatim>\<open>scheduleImpl\<close> with the trigger time they computed.
\<close>

definition log :: "event \<Rightarrow> Looper \<Rightarrow> Looper" where
  "log e s = s\<lparr>trace := e # trace s\<rparr>"

fun do_call :: "call \<Rightarrow> Looper \<Rightarrow> Looper" where
  "do_call (Schedule b trig iv cu) s =
     (let (t, s') = scheduleImpl b trig iv cu s in log (Issued t) s')"
| "do_call (Cancel t) s =
     (let (r, s') = cancel t s in if r then log (Cancelled t) s' else s')"
| "do_call CancelAll s = log CancelledAll (cancelAll s)"
| "do_call Quit s = log QuitCalled (quit s)"

fun do_calls :: "call list \<Rightarrow> Looper \<Rightarrow> Looper" where
  "do_calls [] s = s"
| "do_calls (c # cs) s = do_calls cs (do_call c s)"

text \<open>
  \<^verbatim>\<open>action->action()\<close> for the action in slot \<open>i\<close> of the queue: the event is
  logged, the closure's state advances, and the calls of the body take effect.
\<close>

definition invoke :: "nat \<Rightarrow> Looper \<Rightarrow> outcome \<times> Looper" where
  "invoke i s =
     (let a = mQueuedActions s ! i;
          (cs, r) = action a (invoked a);
          s1 = s\<lparr>mQueuedActions := (mQueuedActions s)[i := a\<lparr>invoked := Suc (invoked a)\<rparr>],
                 trace := Fired (ticket a) r # trace s\<rparr>
      in (r, do_calls cs s1))"

text \<open>The rescheduling of lines 164 to 172, on the action as the body left it.\<close>

definition reschedule :: "Timepoint \<Rightarrow> bool \<Rightarrow> ManagedAction \<Rightarrow> ManagedAction" where
  "reschedule now repeat a =
     (if repeat then
        (if catchUp a then a\<lparr>triggerTime := triggerTime a + interval a\<rparr>
         else a\<lparr>triggerTime := now + interval a\<rparr>)
      else a\<lparr>isCancelled := True\<rparr>)"

text \<open>
  The loop of \<^verbatim>\<open>runQueued\<close> over the slots of the queue. No call a body can make
  changes the length of the queue, so the slots are fixed when the loop starts. The
  first component tells whether an exception left the loop.
\<close>

fun runQueued_loop :: "Timepoint \<Rightarrow> nat list \<Rightarrow> Looper \<Rightarrow> bool \<times> Looper" where
  "runQueued_loop now [] s = (False, s)"
| "runQueued_loop now (i # is) s =
     (if isCancelled (mQueuedActions s ! i) then runQueued_loop now is s
      else if triggerTime (mQueuedActions s ! i) \<le> now then
        (case invoke i s of
           (Throw, s1) \<Rightarrow> (True, s1)
         | (Return repeat, s1) \<Rightarrow>
             (let s2 = s1\<lparr>mQueuedActions :=
                        (mQueuedActions s1)[i := reschedule now repeat (mQueuedActions s1 ! i)]\<rparr>
              in if mQuit s2 then (False, s2) else runQueued_loop now is s2))
      else runQueued_loop now is s)"

definition runQueued :: "Timepoint \<Rightarrow> Looper \<Rightarrow> bool \<times> Looper" where
  "runQueued now s = runQueued_loop now [0..<length (mQueuedActions s)] s"

section \<open>\<^verbatim>\<open>Looper::run\<close>\<close>

text \<open>
  What \<^verbatim>\<open>run\<close> does depends on the clock and on what other threads schedule
  while the mutex is free. Both are given by a list of ticks, one for each iteration
  of the inner loop: the actions other threads have scheduled since the previous
  iteration, the clock reading of the inner loop, and the clock reading
  \<^verbatim>\<open>runQueued\<close> takes if the loop breaks in this iteration. Other threads can only
  schedule: \<^verbatim>\<open>cancel\<close>, \<^verbatim>\<open>cancelAll\<close> and \<^verbatim>\<open>quit\<close> assert the
  owning thread, which is inside \<^verbatim>\<open>run\<close>, so they occur only as calls of a body.
  A \<^verbatim>\<open>schedule\<close> of another thread during a pass is an arrival of the next tick.
  Busy wait and timed wait differ only in how the wait ends, which the ticks decide.
\<close>

type_synonym arrival = "RepeatingAction \<times> Timepoint \<times> milliseconds \<times> bool"
type_synonym tick = "arrival list \<times> Timepoint \<times> Timepoint"

fun arrive :: "arrival list \<Rightarrow> Looper \<Rightarrow> Looper" where
  "arrive [] s = s"
| "arrive ((b, trig, iv, cu) # as) s = arrive as (do_call (Schedule b trig iv cu) s)"

text \<open>
  How a call of \<^verbatim>\<open>run\<close> stands when the ticks are used up: still in its loop,
  returned, left by an exception of a body, or aborted by \<^verbatim>\<open>assert (!mQuit)\<close>.
\<close>

datatype run_result = Running | Returned | Unwound | Aborted

fun run_loop :: "tick list \<Rightarrow> Looper \<Rightarrow> run_result \<times> Looper" where
  "run_loop [] s = (Running, s)"
| "run_loop ((arr, now, now2) # ts) s =
     (let s1 = arrive arr s;
          (sleepUntil, s2) = queuePending s1
      in if sleepUntil \<le> now then
           (if mQuit s2 then (Aborted, s2)
            else (let (threw, s3) = runQueued now2 s2
                  in if threw then (Unwound, s3)
                     else if \<not> mQuit s3 then run_loop ts s3
                     else (Returned, snd (queuePending s3))))
         else run_loop ts s2)"

definition run :: "tick list \<Rightarrow> Looper \<Rightarrow> run_result \<times> Looper" where
  "run ts s = run_loop ts (s\<lparr>mQuit := False\<rparr>)"

section \<open>Executions\<close>

text \<open>
  A step in the life of a looper: an interface call outside \<^verbatim>\<open>run\<close> (a
  \<^verbatim>\<open>schedule\<close> from any thread, or a call of the thread that owns the loop), a
  call of \<^verbatim>\<open>run\<close> with its ticks, or, more generally than the source allows, a
  bare reconciliation or execution pass at a clock reading.
\<close>

datatype step = Call call | Run "tick list" | QueuePending | RunQueued Timepoint

fun do_step :: "step \<Rightarrow> Looper \<Rightarrow> Looper" where
  "do_step (Call c) s = do_call c s"
| "do_step (Run ts) s = snd (run ts s)"
| "do_step QueuePending s = snd (queuePending s)"
| "do_step (RunQueued now) s = snd (runQueued now s)"

fun exec :: "step list \<Rightarrow> Looper \<Rightarrow> Looper" where
  "exec [] s = s"
| "exec (e # es) s = exec es (do_step e s)"

section \<open>Invariants of the registry\<close>

text \<open>
  Tickets of live entries are pairwise distinct and were all issued by the counter;
  no pending entry is flagged cancelled; no assertion has failed.
\<close>

definition tickets_ok :: "Looper \<Rightarrow> bool" where
  "tickets_ok s \<longleftrightarrow>
     distinct (map ticket (mQueuedActions s @ mPendingActions s)) \<and>
     (\<forall>a\<in>set (mQueuedActions s @ mPendingActions s). ticket a \<le> mTicketCounter s) \<and>
     100 \<le> mTicketCounter s"

definition no_cancelled_pending :: "Looper \<Rightarrow> bool" where
  "no_cancelled_pending s \<longleftrightarrow> (\<forall>a\<in>set (mPendingActions s). \<not> isCancelled a)"

definition invar :: "Looper \<Rightarrow> bool" where
  "invar s \<longleftrightarrow> tickets_ok s \<and> no_cancelled_pending s \<and> \<not> assertFailed s"

text \<open>Every trigger time is a value of \<^verbatim>\<open>Timepoint\<close>.\<close>

definition representable :: "Looper \<Rightarrow> bool" where
  "representable s \<longleftrightarrow>
     (\<forall>a\<in>set (mQueuedActions s @ mPendingActions s). triggerTime a \<le> Timepoint_max)"

section \<open>Concrete states and bodies, for evaluation\<close>

text \<open>A body that makes no call and does not repeat.\<close>

definition idle :: RepeatingAction where
  "idle = (\<lambda>k. ([], Return False))"

text \<open>Two actions scheduled on a new looper, due at 70 and at 30.\<close>

definition two_pending :: Looper where
  "two_pending = snd (scheduleImpl idle 30 0 False (snd (scheduleImpl idle 70 0 False Looper_new)))"

section \<open>Notions for the statements and proofs\<close>

text \<open>
  How an action can change. An interface call changes a queued action at most by
  flagging it cancelled (\<open>marks\<close>); a pass keeps the ticket, body, interval and
  policy of an action and never clears its flag (\<open>ages\<close>).
\<close>

definition marks :: "ManagedAction \<Rightarrow> ManagedAction \<Rightarrow> bool" where
  "marks a a' \<longleftrightarrow> a' = a \<or> a' = a\<lparr>isCancelled := True\<rparr>"

definition ages :: "ManagedAction \<Rightarrow> ManagedAction \<Rightarrow> bool" where
  "ages a a' \<longleftrightarrow> ticket a' = ticket a \<and> action a' = action a \<and> interval a' = interval a \<and>
     catchUp a' = catchUp a \<and> (isCancelled a \<longrightarrow> isCancelled a')"

text \<open>The two updates of slot \<open>i\<close> in a pass, named for the proofs.\<close>

definition enter :: "nat \<Rightarrow> Looper \<Rightarrow> Looper" where
  "enter i s =
     s\<lparr>mQueuedActions :=
         (mQueuedActions s)[i := (mQueuedActions s ! i)\<lparr>invoked := Suc (invoked (mQueuedActions s ! i))\<rparr>],
       trace := Fired (ticket (mQueuedActions s ! i))
                  (snd (action (mQueuedActions s ! i) (invoked (mQueuedActions s ! i)))) # trace s\<rparr>"

definition settle :: "Timepoint \<Rightarrow> bool \<Rightarrow> nat \<Rightarrow> Looper \<Rightarrow> Looper" where
  "settle now repeat i s =
     s\<lparr>mQueuedActions := (mQueuedActions s)[i := reschedule now repeat (mQueuedActions s ! i)]\<rparr>"

text \<open>The tickets that \<^verbatim>\<open>schedule\<close> returned, oldest first.\<close>

fun issued_rev :: "event list \<Rightarrow> Ticket list" where
  "issued_rev [] = []"
| "issued_rev (Issued t # tr) = t # issued_rev tr"
| "issued_rev (e # tr) = issued_rev tr"

definition issued :: "Looper \<Rightarrow> Ticket list" where
  "issued s = rev (issued_rev (trace s))"

text \<open>The tickets issued so far decrease from the newest and lie between 101 and the counter.\<close>

definition issue_ok :: "Looper \<Rightarrow> bool" where
  "issue_ok s \<longleftrightarrow>
     sorted_wrt (>) (issued_rev (trace s)) \<and>
     (\<forall>t\<in>set (issued_rev (trace s)). 100 < t \<and> t \<le> mTicketCounter s) \<and>
     100 \<le> mTicketCounter s"

text \<open>A queue of two, the second cancelled, and one pending action.\<close>

definition three_actions :: Looper where
  "three_actions =
     \<lparr>mQueuedActions = [ManagedAction_new 101 idle 0 False 10,
                        (ManagedAction_new 102 idle 0 False 20)\<lparr>isCancelled := True\<rparr>],
      mPendingActions = [ManagedAction_new 103 idle 0 False 30],
      mTicketCounter = 103, mQuit = False, assertFailed = False, trace = []\<rparr>"

text \<open>
  No action with ticket \<open>t\<close> can run any more: the ticket has been issued, every
  queued action that has it is flagged cancelled, and no pending action has it.
\<close>

definition dead :: "Looper \<Rightarrow> Ticket \<Rightarrow> bool" where
  "dead s t \<longleftrightarrow> t \<le> mTicketCounter s \<and>
     (\<forall>a\<in>set (mQueuedActions s). ticket a = t \<longrightarrow> isCancelled a) \<and>
     (\<forall>a\<in>set (mPendingActions s). ticket a \<noteq> t)"

text \<open>The events logged between two states of an execution, newest first.\<close>

definition events_since :: "Looper \<Rightarrow> Looper \<Rightarrow> event list" where
  "events_since s s' = take (length (trace s') - length (trace s)) (trace s')"

text \<open>In a trace, newest first: no body runs after a successful cancel of its ticket.\<close>

fun no_fire_after_cancel :: "event list \<Rightarrow> bool" where
  "no_fire_after_cancel [] = True"
| "no_fire_after_cancel (Fired t r # tr) = (Cancelled t \<notin> set tr \<and> no_fire_after_cancel tr)"
| "no_fire_after_cancel (e # tr) = no_fire_after_cancel tr"

text \<open>The tickets whose bodies were invoked, newest first.\<close>

fun fired_rev :: "event list \<Rightarrow> Ticket list" where
  "fired_rev [] = []"
| "fired_rev (Fired t r # tr) = t # fired_rev tr"
| "fired_rev (e # tr) = fired_rev tr"

text \<open>Every successful cancel in the trace has left its ticket dead, and nothing fired after it.\<close>

definition cancel_sound :: "Looper \<Rightarrow> bool" where
  "cancel_sound s \<longleftrightarrow> no_fire_after_cancel (trace s) \<and>
     (\<forall>t. Cancelled t \<in> set (trace s) \<longrightarrow> dead s t)"

text \<open>Since the state \<open>s0\<close>, the trace has grown and no body with ticket \<open>t\<close> has run.\<close>

definition silent_since :: "Looper \<Rightarrow> Ticket \<Rightarrow> Looper \<Rightarrow> bool" where
  "silent_since s0 t s \<longleftrightarrow> (\<exists>ev. trace s = ev @ trace s0 \<and> t \<notin> set (fired_rev ev))"

text \<open>A body that cancels the ticket 102 and does not repeat.\<close>

definition cancels_102 :: RepeatingAction where
  "cancels_102 = (\<lambda>k. ([Cancel 102], Return False))"

section \<open>The main looper\<close>

text \<open>
  \<^verbatim>\<open>static Looper* sMainLooper\<close>: a pointer with static storage, so it is null
  until \<^verbatim>\<open>setMainLooper\<close> stores the address of a looper. Loopers are named by
  their addresses.
\<close>

datatype pointer = Null | Addr nat

definition sMainLooper_init :: pointer where
  "sMainLooper_init = Null"

text \<open>
  What a call yields: a value, or undefined behaviour. \<^verbatim>\<open>mainLooper\<close> returns
  \<^verbatim>\<open>*sMainLooper\<close> with no check; the indirection through a null pointer is
  undefined.
\<close>

datatype 'a yield = Value 'a | UndefinedBehaviour

definition mainLooper :: "pointer \<Rightarrow> nat yield" where
  "mainLooper sMainLooper = (case sMainLooper of Null \<Rightarrow> UndefinedBehaviour | Addr l \<Rightarrow> Value l)"

definition setMainLooper :: "nat \<Rightarrow> pointer \<Rightarrow> pointer" where
  "setMainLooper l sMainLooper = Addr l"

text \<open>Slot \<open>i\<close> keeps its trigger time \<open>T\<close>, the queue its tickets, and \<open>t\<close> has not run.\<close>

definition waiting :: "Looper \<Rightarrow> nat \<Rightarrow> Timepoint \<Rightarrow> Ticket \<Rightarrow> Looper \<Rightarrow> bool" where
  "waiting s0 i T t s \<longleftrightarrow> triggerTime (mQueuedActions s ! i) = T \<and>
     map ticket (mQueuedActions s) = map ticket (mQueuedActions s0) \<and> silent_since s0 t s"

text \<open>
  One call of \<^verbatim>\<open>run\<close>. An action A with trigger time 10 arrives and the loop,
  at time 0, waits for it. Meanwhile an action B with trigger time 5 arrives. The loop
  wakes at time 20, when both are due.
\<close>

definition overtaking :: "step list" where
  "overtaking = [Run [([(idle, 10, 0, False)], 0, 0), ([(idle, 5, 0, False)], 20, 20)]]"

text \<open>The queue after A was reconciled before B arrived: B, then A.\<close>

definition queue_BA :: Looper where
  "queue_BA = exec [Call (Schedule idle 10 0 False), QueuePending,
                    Call (Schedule idle 5 0 False), QueuePending] Looper_new"

text \<open>
  What a pass from \<open>s\<close> to \<open>s'\<close> at time \<open>now\<close> has done to the action in
  slot \<open>i\<close>: if its body ran and returned true, the trigger time is the old one
  plus the interval under catch-up and \<open>now\<close> plus the interval otherwise; if its
  body ran and returned false, the action is flagged cancelled; and its body ran only
  if the action was not cancelled and was due.
\<close>

definition slot_result :: "Timepoint \<Rightarrow> Looper \<Rightarrow> nat \<Rightarrow> Looper \<Rightarrow> bool" where
  "slot_result now s i s' \<longleftrightarrow>
     (Fired (ticket (mQueuedActions s ! i)) (Return True) \<in> set (events_since s s') \<longrightarrow>
        triggerTime (mQueuedActions s' ! i) =
          (if catchUp (mQueuedActions s ! i)
           then triggerTime (mQueuedActions s ! i) + interval (mQueuedActions s ! i)
           else now + interval (mQueuedActions s ! i))) \<and>
     (Fired (ticket (mQueuedActions s ! i)) (Return False) \<in> set (events_since s s') \<longrightarrow>
        isCancelled (mQueuedActions s' ! i)) \<and>
     (ticket (mQueuedActions s ! i) \<in> set (fired_rev (events_since s s')) \<longrightarrow>
        \<not> isCancelled (mQueuedActions s ! i) \<and> triggerTime (mQueuedActions s ! i) \<le> now)"

text \<open>A body that makes no call and always asks to be repeated.\<close>

definition repeats :: RepeatingAction where
  "repeats = (\<lambda>k. ([], Return True))"

text \<open>
  A queue of three actions due at time 0: a repeating one with catch-up, a repeating
  one without, and one that does not repeat.
\<close>

definition three_due :: Looper where
  "three_due =
     \<lparr>mQueuedActions = [ManagedAction_new 101 repeats 100 True 0,
                        ManagedAction_new 102 repeats 100 False 0,
                        ManagedAction_new 103 idle 0 False 0],
      mPendingActions = [], mTicketCounter = 103, mQuit = False, assertFailed = False,
      trace = []\<rparr>"

text \<open>In a trace, newest first: no body is invoked after a call of \<^verbatim>\<open>quit\<close>.\<close>

fun quiet_after_quit :: "event list \<Rightarrow> bool" where
  "quiet_after_quit [] = True"
| "quiet_after_quit (Fired t r # tr) = (QuitCalled \<notin> set tr \<and> quiet_after_quit tr)"
| "quiet_after_quit (e # tr) = quiet_after_quit tr"

text \<open>
  Since the state \<open>s0\<close>, where \<open>mQuit\<close> was false: no body was invoked after a
  call of \<^verbatim>\<open>quit\<close>, and \<open>mQuit\<close> is set exactly if \<^verbatim>\<open>quit\<close> was called.
\<close>

definition quit_seen :: "Looper \<Rightarrow> Looper \<Rightarrow> bool" where
  "quit_seen s0 s \<longleftrightarrow> (\<exists>ev. trace s = ev @ trace s0 \<and> quiet_after_quit ev \<and>
     (QuitCalled \<in> set ev \<longleftrightarrow> mQuit s))"

definition no_quit :: "Looper \<Rightarrow> Looper \<Rightarrow> bool" where
  "no_quit s0 s \<longleftrightarrow> \<not> mQuit s \<and> (\<exists>ev. trace s = ev @ trace s0 \<and> QuitCalled \<notin> set ev)"

text \<open>
  A call of \<^verbatim>\<open>run\<close> from \<open>s0\<close> that stands at \<open>(res, s)\<close>: no body was invoked
  after a call of \<^verbatim>\<open>quit\<close>; if \<^verbatim>\<open>quit\<close> was called, \<^verbatim>\<open>run\<close> is over, by
  return or by the exception of the body that called it; it returns only after a
  call of \<^verbatim>\<open>quit\<close>; and \<^verbatim>\<open>assert (!mQuit)\<close> has held.
\<close>

definition run_ok :: "Looper \<Rightarrow> run_result \<times> Looper \<Rightarrow> bool" where
  "run_ok s0 rs \<longleftrightarrow> (\<exists>ev. trace (snd rs) = ev @ trace s0 \<and> quiet_after_quit ev \<and>
     (QuitCalled \<in> set ev \<longrightarrow> fst rs = Returned \<or> fst rs = Unwound) \<and>
     (fst rs = Returned \<longrightarrow> QuitCalled \<in> set ev)) \<and> fst rs \<noteq> Aborted"

text \<open>A body that calls \<^verbatim>\<open>quit\<close> and asks to be repeated.\<close>

definition quits :: RepeatingAction where
  "quits = (\<lambda>k. ([Quit], Return True))"

text \<open>
  The ticks of a call of \<^verbatim>\<open>run\<close>: two actions arrive, both due at time 0, the
  first with the body \<open>quits\<close>; the loop wakes at time 5. A second tick is there in
  case the loop goes on.
\<close>

definition quitting_run :: "tick list" where
  "quitting_run = [([(quits, 0, 10, False), (idle, 0, 0, False)], 5, 5), ([], 100, 100)]"












section \<open>The loops, characterised\<close>

lemma requeue_eq: "requeue q p = p @ filter (\<lambda>a. \<not> isCancelled a) q"
  by (induction q arbitrary: p) auto

lemma wakeTime_loop_le: "wakeTime_loop xs w \<le> w"
  by (induction xs arbitrary: w) (auto intro: order_trans less_imp_le)

lemma wakeTime_loop_lower: "a \<in> set xs \<Longrightarrow> wakeTime_loop xs w \<le> triggerTime a"
proof (induction xs arbitrary: w)
  case Nil
  then show ?case by simp
next
  case (Cons b xs)
  then show ?case
    using wakeTime_loop_le [of xs "triggerTime b"] wakeTime_loop_le [of xs w]
    by (auto split: if_splits)
qed

lemma wakeTime_loop_attained:
  "wakeTime_loop xs w = w \<or> wakeTime_loop xs w \<in> triggerTime ` set xs"
proof (induction xs arbitrary: w)
  case Nil
  then show ?case by simp
next
  case (Cons b xs)
  show ?case using Cons [of "triggerTime b"] Cons [of w] by auto
qed

lemma wakeTime_loop_Min:
  assumes "xs \<noteq> []" and "\<forall>a\<in>set xs. triggerTime a \<le> w"
  shows "wakeTime_loop xs w = Min (triggerTime ` set xs)"
proof -
  have "wakeTime_loop xs w \<in> triggerTime ` set xs"
  proof (cases "wakeTime_loop xs w \<in> triggerTime ` set xs")
    case True
    then show ?thesis .
  next
    case False
    with wakeTime_loop_attained [of xs w] have eq: "wakeTime_loop xs w = w" by blast
    from assms obtain a where a: "a \<in> set xs" by (cases xs) auto
    with wakeTime_loop_lower [OF a, of w] assms eq have "triggerTime a = w" by auto
    with a eq show ?thesis by force
  qed
  moreover have "\<forall>y\<in>triggerTime ` set xs. wakeTime_loop xs w \<le> y"
    using wakeTime_loop_lower by auto
  ultimately show ?thesis
    by (intro Min_eqI [symmetric]) auto
qed

lemma tcq_cases:
  "tryCancelQueued_loop t q = (False, q) \<or>
   (\<exists>i<length q. ticket (q ! i) = t \<and> \<not> isCancelled (q ! i) \<and>
      (\<forall>j<i. ticket (q ! j) \<noteq> t) \<and>
      tryCancelQueued_loop t q = (True, q[i := (q ! i)\<lparr>isCancelled := True\<rparr>]))"
proof (induction q)
  case Nil
  then show ?case by simp
next
  case (Cons a q)
  show ?case
  proof (cases "ticket a = t")
    case True
    then show ?thesis by (cases "isCancelled a") auto
  next
    case False
    from Cons show ?thesis
    proof
      assume "tryCancelQueued_loop t q = (False, q)"
      with False show ?thesis by simp
    next
      assume "\<exists>i<length q. ticket (q ! i) = t \<and> \<not> isCancelled (q ! i) \<and>
        (\<forall>j<i. ticket (q ! j) \<noteq> t) \<and>
        tryCancelQueued_loop t q = (True, q[i := (q ! i)\<lparr>isCancelled := True\<rparr>])"
      then obtain i where i: "i < length q" "ticket (q ! i) = t" "\<not> isCancelled (q ! i)"
        "\<forall>j<i. ticket (q ! j) \<noteq> t"
        "tryCancelQueued_loop t q = (True, q[i := (q ! i)\<lparr>isCancelled := True\<rparr>])"
        by blast
      have "\<forall>j<Suc i. ticket ((a # q) ! j) \<noteq> t"
        using False i(4) by (auto simp: nth_Cons split: nat.splits)
      with i False have "Suc i < length (a # q) \<and> ticket ((a # q) ! Suc i) = t \<and>
          \<not> isCancelled ((a # q) ! Suc i) \<and> (\<forall>j<Suc i. ticket ((a # q) ! j) \<noteq> t) \<and>
          tryCancelQueued_loop t (a # q)
            = (True, (a # q)[Suc i := ((a # q) ! Suc i)\<lparr>isCancelled := True\<rparr>])"
        by simp
      then show ?thesis by blast
    qed
  qed
qed

lemma tcq_False_iff:
  "\<not> fst (tryCancelQueued_loop t q) \<longleftrightarrow>
     (case find (\<lambda>a. ticket a = t) q of None \<Rightarrow> True | Some a \<Rightarrow> isCancelled a)"
  by (induction q) (auto split: prod.splits)

lemma tcp_None_iff: "tryCancelPending_loop t p = None \<longleftrightarrow> t \<notin> ticket ` set p"
  by (induction p) (auto split: option.splits)

lemma tcp_Some:
  "tryCancelPending_loop t p = Some (a, rest) \<Longrightarrow>
     \<exists>i<length p. a = p ! i \<and> ticket a = t \<and> (\<forall>j<i. ticket (p ! j) \<noteq> t) \<and>
       rest = take i p @ drop (Suc i) p"
proof (induction p arbitrary: rest)
  case Nil
  then show ?case by simp
next
  case (Cons b p)
  show ?case
  proof (cases "ticket b = t")
    case True
    with Cons.prems have "a = b" "rest = p" by auto
    with True show ?thesis by (intro exI [of _ 0]) simp
  next
    case False
    with Cons.prems obtain r where r: "tryCancelPending_loop t p = Some (a, r)" "rest = b # r"
      by (auto split: option.splits)
    from Cons.IH [OF r(1)] obtain i where i: "i < length p" "a = p ! i" "ticket a = t"
      "\<forall>j<i. ticket (p ! j) \<noteq> t" "r = take i p @ drop (Suc i) p" by blast
    have "\<forall>j<Suc i. ticket ((b # p) ! j) \<noteq> t"
      using False i(4) by (auto simp: nth_Cons split: nat.splits)
    with i r(2) show ?thesis by (intro exI [of _ "Suc i"]) simp
  qed
qed

lemma marks_refl [simp]: "marks a a"
  by (simp add: marks_def)

lemma marks_trans: "marks a b \<Longrightarrow> marks b c \<Longrightarrow> marks a c"
  by (auto simp: marks_def)

lemma marks_ages: "marks a b \<Longrightarrow> ages a b"
  by (auto simp: marks_def ages_def)

lemma ages_refl [simp]: "ages a a"
  by (simp add: ages_def)

lemma ages_trans: "ages a b \<Longrightarrow> ages b c \<Longrightarrow> ages a c"
  by (auto simp: ages_def)

lemma all2_marks_refl [simp]: "list_all2 marks q q"
  by (simp add: list_all2_refl)

lemma all2_ages_refl [simp]: "list_all2 ages q q"
  by (simp add: list_all2_refl)

lemma all2_marks_trans: "list_all2 marks p q \<Longrightarrow> list_all2 marks q r \<Longrightarrow> list_all2 marks p r"
  using list_all2_trans [of marks marks marks p q r] marks_trans by blast

lemma all2_ages_trans: "list_all2 ages p q \<Longrightarrow> list_all2 ages q r \<Longrightarrow> list_all2 ages p r"
  using list_all2_trans [of ages ages ages p q r] ages_trans by blast

lemma all2_marks_ages: "list_all2 marks p q \<Longrightarrow> list_all2 ages p q"
  by (erule list_all2_mono) (rule marks_ages)

lemma all2_ages_ticket: "list_all2 ages p q \<Longrightarrow> map ticket q = map ticket p"
  by (induction rule: list_all2_induct) (auto simp: ages_def)

lemma all2_ages_length: "list_all2 ages p q \<Longrightarrow> length q = length p"
  by (simp add: list_all2_lengthD)

lemma all2_ages_nth: "list_all2 ages p q \<Longrightarrow> i < length p \<Longrightarrow> ages (p ! i) (q ! i)"
  by (simp add: list_all2_nthD)

lemma all2_update:
  assumes "list_all2 R p q" and "i < length p \<Longrightarrow> R (p ! i) b"
  shows "list_all2 R p (q[i := b])"
proof (cases "i < length p")
  case True
  with assms have "list_all2 R (p[i := p ! i]) (q[i := b])"
    by (intro list_all2_update_cong) auto
  then show ?thesis by simp
next
  case False
  with assms(1) have "q[i := b] = q"
    by (simp add: list_all2_lengthD list_update_beyond not_less)
  with assms(1) show ?thesis by simp
qed

lemma tcq_marks: "list_all2 marks q (snd (tryCancelQueued_loop t q))"
  using tcq_cases [of t q]
  by (auto intro!: all2_update simp: marks_def)

lemma cancelAllQueued_marks:
  "list_all2 marks q (map (\<lambda>a. a\<lparr>isCancelled := True\<rparr>) q)"
  by (simp add: list_all2_conv_all_nth marks_def)

text \<open>What each operation does to the fields.\<close>

lemma scheduleImpl_fields [simp]:
  "mQueuedActions (snd (scheduleImpl b trig iv cu s)) = mQueuedActions s"
  "mPendingActions (snd (scheduleImpl b trig iv cu s))
     = mPendingActions s @ [ManagedAction_new (mTicketCounter s + 1) b iv cu trig]"
  "mTicketCounter (snd (scheduleImpl b trig iv cu s)) = mTicketCounter s + 1"
  "mQuit (snd (scheduleImpl b trig iv cu s)) = mQuit s"
  "assertFailed (snd (scheduleImpl b trig iv cu s)) = assertFailed s"
  "trace (snd (scheduleImpl b trig iv cu s)) = trace s"
  "fst (scheduleImpl b trig iv cu s) = mTicketCounter s + 1"
  by (simp_all add: scheduleImpl_def Let_def ManagedAction_new_def)

lemma ManagedAction_new_fields [simp]:
  "ticket (ManagedAction_new t b iv cu trig) = t"
  "action (ManagedAction_new t b iv cu trig) = b"
  "invoked (ManagedAction_new t b iv cu trig) = 0"
  "interval (ManagedAction_new t b iv cu trig) = iv"
  "catchUp (ManagedAction_new t b iv cu trig) = cu"
  "triggerTime (ManagedAction_new t b iv cu trig) = trig"
  "isCancelled (ManagedAction_new t b iv cu trig) = False"
  by (simp_all add: ManagedAction_new_def)

lemma queuePending_fields [simp]:
  "mQueuedActions (snd (queuePending s))
     = mPendingActions s @ filter (\<lambda>a. \<not> isCancelled a) (mQueuedActions s)"
  "mPendingActions (snd (queuePending s)) = []"
  "mTicketCounter (snd (queuePending s)) = mTicketCounter s"
  "mQuit (snd (queuePending s)) = mQuit s"
  "assertFailed (snd (queuePending s)) = assertFailed s"
  "trace (snd (queuePending s)) = trace s"
  by (simp_all add: queuePending_def Let_def requeue_eq)

lemma tryCancelQueued_fields [simp]:
  "mQueuedActions (snd (tryCancelQueued t s)) = snd (tryCancelQueued_loop t (mQueuedActions s))"
  "mPendingActions (snd (tryCancelQueued t s)) = mPendingActions s"
  "mTicketCounter (snd (tryCancelQueued t s)) = mTicketCounter s"
  "mQuit (snd (tryCancelQueued t s)) = mQuit s"
  "assertFailed (snd (tryCancelQueued t s)) = assertFailed s"
  "trace (snd (tryCancelQueued t s)) = trace s"
  "fst (tryCancelQueued t s) = fst (tryCancelQueued_loop t (mQueuedActions s))"
  by (simp_all add: tryCancelQueued_def split: prod.splits)

lemma tryCancelPending_fields [simp]:
  "mQueuedActions (snd (tryCancelPending t s)) = mQueuedActions s"
  "mTicketCounter (snd (tryCancelPending t s)) = mTicketCounter s"
  "mQuit (snd (tryCancelPending t s)) = mQuit s"
  "trace (snd (tryCancelPending t s)) = trace s"
  by (simp_all add: tryCancelPending_def split: option.splits prod.splits)

lemma cancelAll_fields [simp]:
  "mQueuedActions (cancelAll s) = map (\<lambda>a. a\<lparr>isCancelled := True\<rparr>) (mQueuedActions s)"
  "mPendingActions (cancelAll s) = []"
  "mTicketCounter (cancelAll s) = mTicketCounter s"
  "mQuit (cancelAll s) = mQuit s"
  "assertFailed (cancelAll s) = assertFailed s"
  "trace (cancelAll s) = trace s"
  by (simp_all add: cancelAll_def cancelAllQueued_def cancelAllPending_def)

lemma quit_fields [simp]:
  "mQueuedActions (quit s) = map (\<lambda>a. a\<lparr>isCancelled := True\<rparr>) (mQueuedActions s)"
  "mPendingActions (quit s) = []"
  "mTicketCounter (quit s) = mTicketCounter s"
  "mQuit (quit s) = True"
  "assertFailed (quit s) = assertFailed s"
  "trace (quit s) = trace s"
  by (simp_all add: quit_def)

lemma log_fields [simp]:
  "mQueuedActions (log e s) = mQueuedActions s"
  "mPendingActions (log e s) = mPendingActions s"
  "mTicketCounter (log e s) = mTicketCounter s"
  "mQuit (log e s) = mQuit s"
  "assertFailed (log e s) = assertFailed s"
  "trace (log e s) = e # trace s"
  by (simp_all add: log_def)

lemma cancel_alt:
  "cancel t s =
     (if fst (tryCancelQueued t s) then (True, snd (tryCancelQueued t s))
      else tryCancelPending t (snd (tryCancelQueued t s)))"
  by (cases "tryCancelQueued t s") (simp add: cancel_def)

lemma cancel_fields [simp]:
  "mQueuedActions (snd (cancel t s)) = snd (tryCancelQueued_loop t (mQueuedActions s))"
  "mTicketCounter (snd (cancel t s)) = mTicketCounter s"
  "mQuit (snd (cancel t s)) = mQuit s"
  "trace (snd (cancel t s)) = trace s"
  by (simp_all add: cancel_alt)

lemma cancel_pending:
  "mPendingActions (snd (cancel t s)) =
     (if fst (tryCancelQueued_loop t (mQueuedActions s)) then mPendingActions s
      else case tryCancelPending_loop t (mPendingActions s) of
             None \<Rightarrow> mPendingActions s | Some (a, rest) \<Rightarrow> rest)"
  by (simp add: cancel_alt tryCancelPending_def split: option.splits)

lemma cancel_result:
  "fst (cancel t s) \<longleftrightarrow>
     fst (tryCancelQueued_loop t (mQueuedActions s)) \<or>
     tryCancelPending_loop t (mPendingActions s) \<noteq> None"
  by (simp add: cancel_alt tryCancelPending_def split: option.splits)

lemma cancel_assert:
  "assertFailed (snd (cancel t s)) \<longleftrightarrow>
     assertFailed s \<or> (\<not> fst (tryCancelQueued_loop t (mQueuedActions s)) \<and>
       (case tryCancelPending_loop t (mPendingActions s) of
          None \<Rightarrow> False | Some (a, rest) \<Rightarrow> isCancelled a))"
  by (simp add: cancel_alt tryCancelPending_def split: option.splits)

lemma invoke_alt:
  "invoke i s =
     (snd (action (mQueuedActions s ! i) (invoked (mQueuedActions s ! i))),
      do_calls (fst (action (mQueuedActions s ! i) (invoked (mQueuedActions s ! i)))) (enter i s))"
  by (simp add: invoke_def enter_def Let_def split: prod.splits)

lemma runQueued_loop_Cons:
  "runQueued_loop now (i # is) s =
     (if isCancelled (mQueuedActions s ! i) then runQueued_loop now is s
      else if triggerTime (mQueuedActions s ! i) \<le> now then
        (case fst (invoke i s) of
           Throw \<Rightarrow> (True, snd (invoke i s))
         | Return repeat \<Rightarrow>
             (if mQuit (settle now repeat i (snd (invoke i s)))
              then (False, settle now repeat i (snd (invoke i s)))
              else runQueued_loop now is (settle now repeat i (snd (invoke i s)))))
      else runQueued_loop now is s)"
  by (cases "invoke i s") (simp add: settle_def Let_def split: outcome.splits)

declare runQueued_loop.simps(2) [simp del]

lemma enter_fields [simp]:
  "mPendingActions (enter i s) = mPendingActions s"
  "mTicketCounter (enter i s) = mTicketCounter s"
  "mQuit (enter i s) = mQuit s"
  "assertFailed (enter i s) = assertFailed s"
  "length (mQueuedActions (enter i s)) = length (mQueuedActions s)"
  by (simp_all add: enter_def)

lemma settle_fields [simp]:
  "mPendingActions (settle now r i s) = mPendingActions s"
  "mTicketCounter (settle now r i s) = mTicketCounter s"
  "mQuit (settle now r i s) = mQuit s"
  "assertFailed (settle now r i s) = assertFailed s"
  "trace (settle now r i s) = trace s"
  "length (mQueuedActions (settle now r i s)) = length (mQueuedActions s)"
  by (simp_all add: settle_def)

lemma reschedule_ages: "ages a (reschedule now r a)"
  by (simp add: reschedule_def ages_def)

lemma enter_ages: "list_all2 ages (mQueuedActions s) (mQueuedActions (enter i s))"
  by (auto simp: enter_def ages_def intro!: all2_update)

lemma settle_ages: "list_all2 ages (mQueuedActions s) (mQueuedActions (settle now r i s))"
  by (auto simp: settle_def intro!: all2_update reschedule_ages)

lemma do_call_Cancel:
  "do_call (Cancel t) s =
     (if fst (cancel t s) then log (Cancelled t) (snd (cancel t s)) else snd (cancel t s))"
  by (simp add: case_prod_beta)

lemma do_call_Schedule:
  "do_call (Schedule b trig iv cu) s =
     log (Issued (mTicketCounter s + 1)) (snd (scheduleImpl b trig iv cu s))"
  by (simp add: case_prod_beta)

lemmas do_call_eqs = do_call_Schedule do_call_Cancel do_call.simps(3,4)

lemma do_call_marks: "list_all2 marks (mQueuedActions s) (mQueuedActions (do_call c s))"
  by (cases c) (simp_all only: do_call_eqs, simp_all add: tcq_marks cancelAllQueued_marks)

lemma do_calls_marks: "list_all2 marks (mQueuedActions s) (mQueuedActions (do_calls cs s))"
proof (induction cs arbitrary: s)
  case Nil
  then show ?case by simp
next
  case (Cons c cs)
  from all2_marks_trans [OF do_call_marks Cons] show ?case by simp
qed

lemma invoke_ages: "list_all2 ages (mQueuedActions s) (mQueuedActions (snd (invoke i s)))"
  unfolding invoke_alt snd_conv
  by (rule all2_ages_trans [OF enter_ages all2_marks_ages [OF do_calls_marks]])

lemma invoke_length [simp]:
  "length (mQueuedActions (snd (invoke i s))) = length (mQueuedActions s)"
  using invoke_ages [of s i] by (simp add: list_all2_lengthD)

text \<open>A rule for properties of the state that every part of a pass preserves.\<close>

lemma do_calls_invariant:
  assumes "P s" and "\<And>c s. P s \<Longrightarrow> P (do_call c s)"
  shows "P (do_calls cs s)"
  using assms(1) by (induction cs arbitrary: s) (auto intro: assms(2))

lemma runQueued_loop_invariant:
  assumes call: "\<And>c s. P s \<Longrightarrow> P (do_call c s)"
    and enter: "\<And>i s. P s \<Longrightarrow> i < length (mQueuedActions s)
        \<Longrightarrow> \<not> isCancelled (mQueuedActions s ! i) \<Longrightarrow> P (enter i s)"
    and settle: "\<And>i r s. P s \<Longrightarrow> i < length (mQueuedActions s) \<Longrightarrow> P (settle now r i s)"
  shows "P s \<Longrightarrow> \<forall>i\<in>set is. i < length (mQueuedActions s)
    \<Longrightarrow> P (snd (runQueued_loop now is s))"
proof (induction "is" arbitrary: s)
  case Nil
  then show ?case by simp
next
  case (Cons i "is")
  from Cons.prems have i: "i < length (mQueuedActions s)" by simp
  show ?case
  proof (cases "\<not> isCancelled (mQueuedActions s ! i) \<and> triggerTime (mQueuedActions s ! i) \<le> now")
    case False
    with Cons show ?thesis by (auto simp: runQueued_loop_Cons)
  next
    case True
    with Cons.prems i have "P (enter i s)" by (intro enter) auto
    then have inv: "P (snd (invoke i s))"
      unfolding invoke_alt snd_conv by (rule do_calls_invariant [where P = P]) (auto intro: call)
    show ?thesis
    proof (cases "fst (invoke i s)")
      case Throw
      with True inv show ?thesis by (simp add: runQueued_loop_Cons)
    next
      case (Return r)
      let ?s2 = "settle now r i (snd (invoke i s))"
      from inv i have s2: "P ?s2" by (intro settle) simp_all
      have "\<forall>j\<in>set is. j < length (mQueuedActions ?s2)"
        using Cons.prems by simp
      with s2 have "P (snd (runQueued_loop now is ?s2))" by (rule Cons.IH)
      with True Return s2 show ?thesis by (simp add: runQueued_loop_Cons)
    qed
  qed
qed

lemma runQueued_invariant:
  assumes "\<And>c s. P s \<Longrightarrow> P (do_call c s)"
    and "\<And>i s. P s \<Longrightarrow> i < length (mQueuedActions s)
        \<Longrightarrow> \<not> isCancelled (mQueuedActions s ! i) \<Longrightarrow> P (enter i s)"
    and "\<And>i r s. P s \<Longrightarrow> i < length (mQueuedActions s) \<Longrightarrow> P (settle now r i s)"
  shows "P s \<Longrightarrow> P (snd (runQueued now s))"
  unfolding runQueued_def
  by (rule runQueued_loop_invariant [where P = P]) (auto intro: assms)

lemma arrive_invariant:
  assumes "P s" and "\<And>c s. P s \<Longrightarrow> P (do_call c s)"
  shows "P (arrive as s)"
  using assms(1)
proof (induction as arbitrary: s)
  case Nil
  then show ?case by simp
next
  case (Cons a as)
  obtain b trig iv cu where a: "a = (b, trig, iv, cu)" by (cases a)
  from assms(2) [OF Cons.prems, of "Schedule b trig iv cu"]
  show ?case unfolding a by (simp only: arrive.simps Cons.IH)
qed

lemma run_loop_Cons:
  "run_loop ((arr, now, now2) # ts) s =
     (if fst (queuePending (arrive arr s)) \<le> now then
        (if mQuit (snd (queuePending (arrive arr s))) then (Aborted, snd (queuePending (arrive arr s)))
         else if fst (runQueued now2 (snd (queuePending (arrive arr s))))
           then (Unwound, snd (runQueued now2 (snd (queuePending (arrive arr s)))))
         else if \<not> mQuit (snd (runQueued now2 (snd (queuePending (arrive arr s)))))
           then run_loop ts (snd (runQueued now2 (snd (queuePending (arrive arr s)))))
         else (Returned, snd (queuePending (snd (runQueued now2 (snd (queuePending (arrive arr s))))))))
      else run_loop ts (snd (queuePending (arrive arr s))))"
  by (simp add: Let_def case_prod_beta)

declare run_loop.simps(2) [simp del]

lemma run_loop_invariant:
  assumes call: "\<And>c s. P s \<Longrightarrow> P (do_call c s)"
    and enter: "\<And>i s. P s \<Longrightarrow> i < length (mQueuedActions s)
        \<Longrightarrow> \<not> isCancelled (mQueuedActions s ! i) \<Longrightarrow> P (enter i s)"
    and settle: "\<And>now i r s. P s \<Longrightarrow> i < length (mQueuedActions s) \<Longrightarrow> P (settle now r i s)"
    and queue: "\<And>s. P s \<Longrightarrow> P (snd (queuePending s))"
  shows "P s \<Longrightarrow> P (snd (run_loop ts s))"
proof (induction ts arbitrary: s)
  case Nil
  then show ?case by simp
next
  case (Cons t ts)
  obtain arr now now2 where t: "t = (arr, now, now2)" by (cases t)
  let ?s2 = "snd (queuePending (arrive arr s))"
  let ?s3 = "snd (runQueued now2 ?s2)"
  from Cons.prems have "P (arrive arr s)"
    by (rule arrive_invariant) (rule call)
  then have s2: "P ?s2" by (rule queue)
  then have s3: "P ?s3"
    by (rule runQueued_invariant [where P = P, rotated -1]) (auto intro: call enter settle)
  from s2 s3 Cons.IH [OF s2] Cons.IH [OF s3] queue [OF s3] show ?case
    unfolding t run_loop_Cons by simp
qed

lemma exec_invariant:
  assumes call: "\<And>c s. P s \<Longrightarrow> P (do_call c s)"
    and enter: "\<And>i s. P s \<Longrightarrow> i < length (mQueuedActions s)
        \<Longrightarrow> \<not> isCancelled (mQueuedActions s ! i) \<Longrightarrow> P (enter i s)"
    and settle: "\<And>now i r s. P s \<Longrightarrow> i < length (mQueuedActions s) \<Longrightarrow> P (settle now r i s)"
    and queue: "\<And>s. P s \<Longrightarrow> P (snd (queuePending s))"
    and reset: "\<And>s. P s \<Longrightarrow> P (s\<lparr>mQuit := False\<rparr>)"
  shows "P s \<Longrightarrow> P (exec es s)"
proof (induction es arbitrary: s)
  case Nil
  then show ?case by simp
next
  case (Cons e es)
  have "P (do_step e s)"
  proof (cases e)
    case (Call c)
    with Cons.prems show ?thesis by (simp add: call)
  next
    case (Run ts)
    from Cons.prems have "P (s\<lparr>mQuit := False\<rparr>)" by (rule reset)
    then have "P (snd (run_loop ts (s\<lparr>mQuit := False\<rparr>)))"
      by (rule run_loop_invariant [where P = P, rotated -1]) (auto intro: call enter settle queue)
    with Run show ?thesis by (simp add: run_def)
  next
    case QueuePending
    with Cons.prems show ?thesis by (simp add: queue)
  next
    case (RunQueued now)
    have "P (snd (runQueued now s))"
      by (rule runQueued_invariant [where P = P]) (auto intro: call enter settle Cons.prems)
    with RunQueued show ?thesis by simp
  qed
  then show ?case by (simp add: Cons.IH)
qed

lemma tickets_ok_alt:
  "tickets_ok s \<longleftrightarrow>
     distinct (map ticket (mQueuedActions s)) \<and> distinct (map ticket (mPendingActions s)) \<and>
     set (map ticket (mQueuedActions s)) \<inter> set (map ticket (mPendingActions s)) = {} \<and>
     (\<forall>t\<in>set (map ticket (mQueuedActions s)). t \<le> mTicketCounter s) \<and>
     (\<forall>t\<in>set (map ticket (mPendingActions s)). t \<le> mTicketCounter s) \<and>
     100 \<le> mTicketCounter s"
  unfolding tickets_ok_def by auto

lemma distinct_take_drop:
  assumes "distinct xs"
  shows "distinct (take i xs @ drop (Suc i) xs)"
proof (cases "i < length xs")
  case True
  from id_take_nth_drop [OF True] assms
  have "distinct (take i xs @ xs ! i # drop (Suc i) xs)" by simp
  then show ?thesis by simp
next
  case False
  with assms show ?thesis by simp
qed

lemma tickets_ok_cong:
  assumes "map ticket (mQueuedActions s') = map ticket (mQueuedActions s)"
    and "mPendingActions s' = mPendingActions s" and "mTicketCounter s' = mTicketCounter s"
  shows "tickets_ok s' = tickets_ok s"
  unfolding tickets_ok_alt assms ..

lemma tickets_ok_sub:
  assumes "tickets_ok s"
    and "map ticket (mQueuedActions s') = map ticket (mQueuedActions s)"
    and "mPendingActions s' = take i (mPendingActions s) @ drop (Suc i) (mPendingActions s)"
    and "mTicketCounter s' = mTicketCounter s"
  shows "tickets_ok s'"
proof -
  let ?p = "map ticket (mPendingActions s)"
  have p': "map ticket (mPendingActions s') = take i ?p @ drop (Suc i) ?p"
    by (simp add: assms(3) take_map drop_map)
  have sub: "set (take i ?p @ drop (Suc i) ?p) \<subseteq> set ?p"
    using set_take_subset [of i ?p] set_drop_subset [of "Suc i" ?p] by auto
  have dis: "distinct ?p \<Longrightarrow> distinct (take i ?p @ drop (Suc i) ?p)"
    by (rule distinct_take_drop)
  from assms(1) sub dis show ?thesis
    unfolding tickets_ok_alt assms(2,4) p' by blast
qed

lemma tcq_ticket [simp]: "map ticket (snd (tryCancelQueued_loop t q)) = map ticket q"
  by (rule all2_ages_ticket [OF all2_marks_ages [OF tcq_marks]])

lemma tcq_length [simp]: "length (snd (tryCancelQueued_loop t q)) = length q"
  using tcq_marks [of q t] by (simp add: list_all2_lengthD)

lemma invar_scheduleImpl:
  assumes "invar s"
  shows "invar (snd (scheduleImpl b trig iv cu s))"
proof -
  from assms have ok: "tickets_ok s" and ncp: "no_cancelled_pending s" and af: "\<not> assertFailed s"
    by (simp_all add: invar_def)
  from ok have fresh: "mTicketCounter s + 1 \<notin> set (map ticket (mQueuedActions s))"
    "mTicketCounter s + 1 \<notin> set (map ticket (mPendingActions s))"
    unfolding tickets_ok_alt by fastforce+
  with ok have "tickets_ok (snd (scheduleImpl b trig iv cu s))"
    unfolding tickets_ok_alt by (simp add: Ball_def) fastforce
  moreover from ncp have "no_cancelled_pending (snd (scheduleImpl b trig iv cu s))"
    by (simp add: no_cancelled_pending_def)
  ultimately show ?thesis using af by (simp add: invar_def)
qed

lemma invar_queuePending:
  assumes "invar s"
  shows "invar (snd (queuePending s))"
proof -
  from assms have ok: "tickets_ok s" and ncp: "no_cancelled_pending s" and af: "\<not> assertFailed s"
    by (simp_all add: invar_def)
  have "tickets_ok (snd (queuePending s))"
    using ok unfolding tickets_ok_def
    by (auto simp: distinct_map_filter)
  then show ?thesis using af by (simp add: invar_def no_cancelled_pending_def)
qed

lemma invar_cancel: "invar s \<Longrightarrow> invar (snd (cancel t s))"
proof -
  assume inv: "invar s"
  show ?thesis
  proof (cases "fst (tryCancelQueued_loop t (mQueuedActions s))")
    case True
    then have p: "mPendingActions (snd (cancel t s)) = mPendingActions s"
      and a: "assertFailed (snd (cancel t s)) = assertFailed s"
      by (simp_all add: cancel_pending cancel_assert)
    have "tickets_ok (snd (cancel t s)) = tickets_ok s"
      by (rule tickets_ok_cong) (simp_all add: p)
    with inv p a show ?thesis by (simp add: invar_def no_cancelled_pending_def)
  next
    case False
    show ?thesis
    proof (cases "tryCancelPending_loop t (mPendingActions s)")
      case None
      with False have p: "mPendingActions (snd (cancel t s)) = mPendingActions s"
        and a: "assertFailed (snd (cancel t s)) = assertFailed s"
        by (simp_all add: cancel_pending cancel_assert)
      have "tickets_ok (snd (cancel t s)) = tickets_ok s"
        by (rule tickets_ok_cong) (simp_all add: p)
      with inv p a show ?thesis by (simp add: invar_def no_cancelled_pending_def)
    next
      case (Some ar)
      obtain a rest where ar: "ar = (a, rest)" by (cases ar)
      from tcp_Some [OF Some [unfolded ar]] obtain i where i: "i < length (mPendingActions s)"
        "a = mPendingActions s ! i"
        "rest = take i (mPendingActions s) @ drop (Suc i) (mPendingActions s)" by blast
      from False Some ar have p: "mPendingActions (snd (cancel t s)) = rest"
        and af: "assertFailed (snd (cancel t s)) = (assertFailed s \<or> isCancelled a)"
        by (simp_all add: cancel_pending cancel_assert)
      from inv i have na: "\<not> isCancelled a"
        by (simp add: invar_def no_cancelled_pending_def)
      have "set rest \<subseteq> set (mPendingActions s)"
        unfolding i(3) using set_take_subset [of i "mPendingActions s"]
          set_drop_subset [of "Suc i" "mPendingActions s"] by auto
      with inv p have ncp: "no_cancelled_pending (snd (cancel t s))"
        by (auto simp: invar_def no_cancelled_pending_def)
      have "tickets_ok (snd (cancel t s))"
        by (rule tickets_ok_sub [where s = s and i = i]) (use inv p i in \<open>simp_all add: invar_def\<close>)
      with ncp af na inv show ?thesis by (simp add: invar_def)
    qed
  qed
qed

lemma invar_cancelAll: "invar s \<Longrightarrow> invar (cancelAll s)"
  by (simp add: invar_def tickets_ok_alt no_cancelled_pending_def comp_def)

lemma invar_quit: "invar s \<Longrightarrow> invar (quit s)"
  by (simp add: invar_def tickets_ok_alt no_cancelled_pending_def comp_def)

lemma invar_log [simp]: "invar (log e s) = invar s"
  by (simp add: invar_def tickets_ok_def no_cancelled_pending_def)

lemma invar_do_call: "invar s \<Longrightarrow> invar (do_call c s)"
  by (cases c) (simp_all only: do_call_eqs, auto simp: invar_scheduleImpl invar_cancel
      invar_cancelAll invar_quit)

lemma invar_enter: "invar s \<Longrightarrow> invar (enter i s)"
  using tickets_ok_cong [of "enter i s" s] all2_ages_ticket [OF enter_ages [of s i]]
  by (simp add: invar_def no_cancelled_pending_def)

lemma invar_settle: "invar s \<Longrightarrow> invar (settle now r i s)"
  using tickets_ok_cong [of "settle now r i s" s] all2_ages_ticket [OF settle_ages [of s now r i]]
  by (simp add: invar_def no_cancelled_pending_def)


lemma invar_reset: "invar s \<Longrightarrow> invar (s\<lparr>mQuit := False\<rparr>)"
  by (simp add: invar_def tickets_ok_def no_cancelled_pending_def)

lemma invar_exec: "invar s \<Longrightarrow> invar (exec es s)"
  by (rule exec_invariant [where P = invar])
    (auto intro: invar_do_call invar_enter invar_settle invar_queuePending invar_reset)

lemma invar_new: "invar Looper_new"
  by (simp add: invar_def tickets_ok_def no_cancelled_pending_def Looper_new_def)

lemma issue_ok_cong:
  "trace s' = trace s \<Longrightarrow> mTicketCounter s' = mTicketCounter s \<Longrightarrow> issue_ok s' = issue_ok s"
  by (simp add: issue_ok_def)

lemma issue_ok_do_call: "issue_ok s \<Longrightarrow> issue_ok (do_call c s)"
  by (cases c) (simp_all only: do_call_eqs, auto simp: issue_ok_def)

lemma trace_settle_enter [simp]:
  "trace (enter i s) = Fired (ticket (mQueuedActions s ! i))
      (snd (action (mQueuedActions s ! i) (invoked (mQueuedActions s ! i)))) # trace s"
  by (simp add: enter_def)

lemma issue_ok_enter: "issue_ok s \<Longrightarrow> issue_ok (enter i s)"
  by (simp add: issue_ok_def)

lemma issue_ok_settle: "issue_ok s \<Longrightarrow> issue_ok (settle now r i s)"
  by (simp add: issue_ok_def)

lemma issue_ok_queuePending: "issue_ok s \<Longrightarrow> issue_ok (snd (queuePending s))"
  by (simp add: issue_ok_def)

lemma issue_ok_reset: "issue_ok s \<Longrightarrow> issue_ok (s\<lparr>mQuit := False\<rparr>)"
  by (simp add: issue_ok_def)

lemma issue_ok_exec: "issue_ok s \<Longrightarrow> issue_ok (exec es s)"
  by (rule exec_invariant [where P = issue_ok])
    (auto intro: issue_ok_do_call issue_ok_enter issue_ok_settle issue_ok_queuePending
      issue_ok_reset)

lemma issue_ok_new: "issue_ok Looper_new"
  by (simp add: issue_ok_def Looper_new_def)

lemma distinct_ticket_eq:
  assumes "distinct (map ticket q)" "a \<in> set q" "b \<in> set q" "ticket a = ticket b"
  shows "a = b"
  using assms by (auto simp: distinct_map inj_on_def)

lemma find_ticket_Some:
  "find (\<lambda>a. ticket a = t) q = Some b \<Longrightarrow> b \<in> set q \<and> ticket b = t"
  by (induction q) (auto split: if_splits)

lemma find_ticket_None: "find (\<lambda>a. ticket a = t) q = None \<longleftrightarrow> t \<notin> ticket ` set q"
  by (induction q) auto

lemma tcq_True_iff:
  assumes "distinct (map ticket q)"
  shows "fst (tryCancelQueued_loop t q) \<longleftrightarrow> (\<exists>a\<in>set q. ticket a = t \<and> \<not> isCancelled a)"
proof
  assume "fst (tryCancelQueued_loop t q)"
  with tcq_cases [of t q] show "\<exists>a\<in>set q. ticket a = t \<and> \<not> isCancelled a"
    by (auto intro: nth_mem)
next
  assume "\<exists>a\<in>set q. ticket a = t \<and> \<not> isCancelled a"
  then obtain a where a: "a \<in> set q" "ticket a = t" "\<not> isCancelled a" by blast
  show "fst (tryCancelQueued_loop t q)"
  proof (rule ccontr)
    assume "\<not> fst (tryCancelQueued_loop t q)"
    then have c: "case find (\<lambda>a. ticket a = t) q of None \<Rightarrow> True | Some a \<Rightarrow> isCancelled a"
      by (simp add: tcq_False_iff)
    from a have "find (\<lambda>a. ticket a = t) q \<noteq> None"
      by (auto simp: find_ticket_None)
    then obtain b where b: "find (\<lambda>a. ticket a = t) q = Some b" by blast
    from find_ticket_Some [OF b] a assms have "b = a"
      by (auto intro: distinct_ticket_eq)
    with b c a show False by simp
  qed
qed

lemma events_since_append [simp]: "trace s' = ev @ trace s \<Longrightarrow> events_since s s' = ev"
  by (simp add: events_since_def)

lemma events_since_same [simp]: "trace s' = trace s \<Longrightarrow> events_since s s' = []"
  by (simp add: events_since_def)

lemma fired_rev_append [simp]: "fired_rev (xs @ ys) = fired_rev xs @ fired_rev ys"
  by (induction xs rule: fired_rev.induct) auto

lemma fired_rev_mem: "t \<in> set (fired_rev tr) \<longleftrightarrow> (\<exists>r. Fired t r \<in> set tr)"
  by (induction tr rule: fired_rev.induct) auto

text \<open>A Hoare rule for the loop of \<^verbatim>\<open>runQueued\<close>.\<close>

lemma runQueued_loop_rule:
  assumes head: "P s"
    and range: "\<forall>i\<in>set is. i < length (mQueuedActions s) \<and> i \<in> S"
    and fire: "\<And>i s r. P s \<Longrightarrow> i < length (mQueuedActions s) \<Longrightarrow> i \<in> S
        \<Longrightarrow> \<not> isCancelled (mQueuedActions s ! i) \<Longrightarrow> triggerTime (mQueuedActions s ! i) \<le> now
        \<Longrightarrow> fst (invoke i s) = Return r
        \<Longrightarrow> (if mQuit (settle now r i (snd (invoke i s)))
             then Q (False, settle now r i (snd (invoke i s)))
             else P (settle now r i (snd (invoke i s))))"
    and throw: "\<And>i s. P s \<Longrightarrow> i < length (mQueuedActions s) \<Longrightarrow> i \<in> S
        \<Longrightarrow> \<not> isCancelled (mQueuedActions s ! i) \<Longrightarrow> triggerTime (mQueuedActions s ! i) \<le> now
        \<Longrightarrow> fst (invoke i s) = Throw \<Longrightarrow> Q (True, snd (invoke i s))"
    and finish: "\<And>s. P s \<Longrightarrow> Q (False, s)"
  shows "Q (runQueued_loop now is s)"
  using head range
proof (induction "is" arbitrary: s)
  case Nil
  then show ?case by (simp add: finish)
next
  case (Cons i "is")
  from Cons.prems have i: "i < length (mQueuedActions s)" and iS: "i \<in> S" by simp_all
  show ?case
  proof (cases "\<not> isCancelled (mQueuedActions s ! i) \<and> triggerTime (mQueuedActions s ! i) \<le> now")
    case False
    with Cons show ?thesis by (auto simp: runQueued_loop_Cons)
  next
    case True
    show ?thesis
    proof (cases "fst (invoke i s)")
      case Throw
      with True throw [OF Cons.prems(1) i iS] show ?thesis by (simp add: runQueued_loop_Cons)
    next
      case (Return r)
      let ?s2 = "settle now r i (snd (invoke i s))"
      note f = fire [OF Cons.prems(1) i iS _ _ Return]
      show ?thesis
      proof (cases "mQuit ?s2")
        case q: True
        with f True have "Q (False, ?s2)" by simp
        with True Return q show ?thesis by (simp add: runQueued_loop_Cons)
      next
        case q: False
        with f True have p: "P ?s2" by simp
        from Cons.prems have "\<forall>j\<in>set is. j < length (mQueuedActions ?s2) \<and> j \<in> S" by simp
        with p have "Q (runQueued_loop now is ?s2)" by (rule Cons.IH)
        with True Return q show ?thesis by (simp add: runQueued_loop_Cons)
      qed
    qed
  qed
qed

lemma flagged_ages:
  assumes "list_all2 ages q q'" and "\<forall>a\<in>set q. ticket a = t \<longrightarrow> isCancelled a"
  shows "\<forall>a\<in>set q'. ticket a = t \<longrightarrow> isCancelled a"
proof (intro ballI impI)
  fix a assume "a \<in> set q'" and t: "ticket a = t"
  then obtain i where i: "i < length q'" "a = q' ! i" by (auto simp: in_set_conv_nth)
  with assms(1) have "ages (q ! i) a" and "i < length q"
    by (simp_all add: list_all2_nthD2 list_all2_lengthD)
  with assms(2) t show "isCancelled a" by (auto simp: ages_def)
qed

lemma dead_cong:
  assumes "dead s t" and "list_all2 ages (mQueuedActions s) (mQueuedActions s')"
    and "mPendingActions s' = mPendingActions s" and "mTicketCounter s' = mTicketCounter s"
  shows "dead s' t"
  using assms flagged_ages [OF assms(2), of t] by (simp add: dead_def)

lemma dead_enter: "dead s t \<Longrightarrow> dead (enter i s) t"
  by (erule dead_cong) (simp_all add: enter_ages)

lemma dead_settle: "dead s t \<Longrightarrow> dead (settle now r i s) t"
  by (erule dead_cong) (simp_all add: settle_ages)

lemma dead_reset: "dead s t \<Longrightarrow> dead (s\<lparr>mQuit := False\<rparr>) t"
  by (simp add: dead_def)

lemma dead_log [simp]: "dead (log e s) t = dead s t"
  by (simp add: dead_def)

lemma dead_queuePending: "dead s t \<Longrightarrow> dead (snd (queuePending s)) t"
  by (auto simp: dead_def)

lemma dead_scheduleImpl: "dead s t \<Longrightarrow> dead (snd (scheduleImpl b trig iv cu s)) t"
  by (auto simp: dead_def)

lemma cancel_pending_subset: "set (mPendingActions (snd (cancel t s))) \<subseteq> set (mPendingActions s)"
proof (cases "tryCancelPending_loop t (mPendingActions s)")
  case None
  then show ?thesis by (simp add: cancel_pending)
next
  case (Some ar)
  obtain a rest where ar: "ar = (a, rest)" by (cases ar)
  from tcp_Some [OF Some [unfolded ar]] obtain i where
    "rest = take i (mPendingActions s) @ drop (Suc i) (mPendingActions s)" by blast
  then have "set rest \<subseteq> set (mPendingActions s)"
    using set_take_subset [of i "mPendingActions s"]
      set_drop_subset [of "Suc i" "mPendingActions s"] by auto
  with Some ar show ?thesis by (simp add: cancel_pending)
qed

lemma dead_cancel: "dead s t \<Longrightarrow> dead (snd (cancel u s)) t"
  using cancel_pending_subset [of u s]
    flagged_ages [OF all2_marks_ages [OF tcq_marks], of "mQueuedActions s" t u]
  by (auto simp: dead_def)

lemma dead_cancelAll: "dead s t \<Longrightarrow> dead (cancelAll s) t"
  by (simp add: dead_def)

lemma dead_quit: "dead s t \<Longrightarrow> dead (quit s) t"
  by (simp add: dead_def)

lemma dead_do_call: "dead s t \<Longrightarrow> dead (do_call c s) t"
  by (cases c) (simp_all only: do_call_eqs, auto simp: dead_scheduleImpl dead_cancel
      dead_cancelAll dead_quit)

lemma tcq_True_flags:
  assumes d: "distinct (map ticket q)" and r: "fst (tryCancelQueued_loop t q)"
  shows "\<forall>a\<in>set (snd (tryCancelQueued_loop t q)). ticket a = t \<longrightarrow> isCancelled a"
proof -
  from tcq_cases [of t q] r obtain i where i: "i < length q" "ticket (q ! i) = t"
    and q': "tryCancelQueued_loop t q = (True, q[i := (q ! i)\<lparr>isCancelled := True\<rparr>])"
    by auto
  show ?thesis
  proof (intro ballI impI)
    fix a assume "a \<in> set (snd (tryCancelQueued_loop t q))" and t: "ticket a = t"
    then obtain j where j: "j < length q" "a = (q[i := (q ! i)\<lparr>isCancelled := True\<rparr>]) ! j"
      unfolding q' by (auto simp: in_set_conv_nth)
    show "isCancelled a"
    proof (cases "j = i")
      case True
      with j i show ?thesis by simp
    next
      case False
      with j have "a = q ! j" by simp
      with t i have eq: "ticket (q ! j) = ticket (q ! i)" by simp
      have "(map ticket q ! j = map ticket q ! i) = (j = i)"
        using d i j by (intro nth_eq_iff_index_eq) simp_all
      with eq i j False show ?thesis by simp
    qed
  qed
qed

lemma tcq_False_flags:
  assumes d: "distinct (map ticket q)" and r: "\<not> fst (tryCancelQueued_loop t q)"
  shows "\<forall>a\<in>set (snd (tryCancelQueued_loop t q)). ticket a = t \<longrightarrow> isCancelled a"
proof -
  from tcq_cases [of t q] r have "snd (tryCancelQueued_loop t q) = q" by auto
  with r show ?thesis unfolding tcq_True_iff [OF d] by auto
qed

lemma cancel_dead:
  assumes inv: "invar s" and r: "fst (cancel t s)"
  shows "dead (snd (cancel t s)) t"
proof -
  from inv have ok: "tickets_ok s" by (simp add: invar_def)
  then have d: "distinct (map ticket (mQueuedActions s))"
    and dp: "distinct (map ticket (mPendingActions s))"
    and disj: "set (map ticket (mQueuedActions s)) \<inter> set (map ticket (mPendingActions s)) = {}"
    and le: "\<forall>u\<in>set (map ticket (mQueuedActions s)). u \<le> mTicketCounter s"
      "\<forall>u\<in>set (map ticket (mPendingActions s)). u \<le> mTicketCounter s"
    by (simp_all add: tickets_ok_alt)
  have flags: "\<forall>a\<in>set (mQueuedActions (snd (cancel t s))). ticket a = t \<longrightarrow> isCancelled a"
    using tcq_True_flags [OF d, of t] tcq_False_flags [OF d, of t] by (cases "fst (tryCancelQueued_loop t (mQueuedActions s))") simp_all
  show ?thesis
  proof (cases "fst (tryCancelQueued_loop t (mQueuedActions s))")
    case True
    then have t: "t \<in> set (map ticket (mQueuedActions s))"
      unfolding tcq_True_iff [OF d] by auto
    with disj have "t \<notin> set (map ticket (mPendingActions s))" by blast
    then have "\<forall>a\<in>set (mPendingActions s). ticket a \<noteq> t" by auto
    moreover from t le have "t \<le> mTicketCounter s" by blast
    ultimately show ?thesis using True flags
      by (simp add: dead_def cancel_pending)
  next
    case False
    with r obtain a rest where some: "tryCancelPending_loop t (mPendingActions s) = Some (a, rest)"
      by (auto simp: cancel_result)
    from tcp_Some [OF some] obtain i where i: "i < length (mPendingActions s)"
      "a = mPendingActions s ! i" "ticket a = t"
      "rest = take i (mPendingActions s) @ drop (Suc i) (mPendingActions s)" by blast
    let ?p = "map ticket (mPendingActions s)"
    from i have t: "t \<in> set ?p" by (auto simp: in_set_conv_nth intro!: image_eqI [of _ _ a])
    from i have "i < length ?p" and "?p ! i = t" by simp_all
    with id_take_nth_drop [of i ?p] have "?p = take i ?p @ t # drop (Suc i) ?p"
      by metis
    with dp have "distinct (take i ?p @ t # drop (Suc i) ?p)" by simp
    then have "t \<notin> set (take i ?p @ drop (Suc i) ?p)" by auto
    then have "t \<notin> set (map ticket rest)"
      by (simp add: i(4) take_map drop_map)
    then have "\<forall>a\<in>set rest. ticket a \<noteq> t" by auto
    moreover from t le have "t \<le> mTicketCounter s" by blast
    ultimately show ?thesis using False some flags
      by (simp add: dead_def cancel_pending)
  qed
qed

lemma cancel_sound_do_call:
  assumes "invar s" and "cancel_sound s"
  shows "cancel_sound (do_call c s)"
proof (cases c)
  case (Schedule b trig iv cu)
  with assms(2) show ?thesis
    by (simp only: do_call_eqs) (auto simp: cancel_sound_def dead_scheduleImpl)
next
  case (Cancel u)
  with assms(2) cancel_dead [OF assms(1), of u] show ?thesis
    by (simp only: do_call_eqs) (auto simp: cancel_sound_def dead_cancel)
next
  case CancelAll
  with assms(2) show ?thesis
    by (simp only: do_call_eqs) (auto simp: cancel_sound_def dead_cancelAll)
next
  case Quit
  with assms(2) show ?thesis
    by (simp only: do_call_eqs) (auto simp: cancel_sound_def dead_quit)
qed

lemma cancel_sound_enter:
  assumes "cancel_sound s" and "i < length (mQueuedActions s)"
    and "\<not> isCancelled (mQueuedActions s ! i)"
  shows "cancel_sound (enter i s)"
proof -
  have "Cancelled (ticket (mQueuedActions s ! i)) \<notin> set (trace s)"
  proof
    assume "Cancelled (ticket (mQueuedActions s ! i)) \<in> set (trace s)"
    with assms(1) have "dead s (ticket (mQueuedActions s ! i))" by (simp add: cancel_sound_def)
    with assms(2,3) show False by (auto simp: dead_def)
  qed
  with assms(1) show ?thesis
    by (auto simp: cancel_sound_def dead_enter)
qed

lemma cancel_sound_settle: "cancel_sound s \<Longrightarrow> cancel_sound (settle now r i s)"
  by (auto simp: cancel_sound_def dead_settle)

lemma cancel_sound_queuePending: "cancel_sound s \<Longrightarrow> cancel_sound (snd (queuePending s))"
  by (auto simp: cancel_sound_def dead_queuePending)

lemma cancel_sound_reset: "cancel_sound s \<Longrightarrow> cancel_sound (s\<lparr>mQuit := False\<rparr>)"
  by (auto simp: cancel_sound_def dead_reset)

lemma cancel_sound_exec:
  assumes "invar s" and "cancel_sound s"
  shows "cancel_sound (exec es s)"
proof -
  from assms have "invar s \<and> cancel_sound s" by simp
  then have "invar (exec es s) \<and> cancel_sound (exec es s)"
    by (rule exec_invariant [where P = "\<lambda>s. invar s \<and> cancel_sound s", rotated -1])
      (auto intro: invar_do_call invar_enter invar_settle invar_queuePending invar_reset
        cancel_sound_do_call cancel_sound_enter cancel_sound_settle cancel_sound_queuePending
        cancel_sound_reset)
  then show ?thesis by simp
qed

lemma cancel_sound_new: "cancel_sound Looper_new"
  by (simp add: cancel_sound_def Looper_new_def)

lemma do_call_trace: "\<exists>ev. trace (do_call c s) = ev @ trace s \<and> fired_rev ev = []"
  by (cases c) (simp_all only: do_call_eqs, auto)

lemma silent_since_refl [simp]: "silent_since s t s"
  by (simp add: silent_since_def)

lemma silent_since_cong: "trace s' = trace s \<Longrightarrow> silent_since s0 t s' = silent_since s0 t s"
  by (simp add: silent_since_def)

lemma silent_since_do_call: "silent_since s0 t s \<Longrightarrow> silent_since s0 t (do_call c s)"
  using do_call_trace [of c s] by (auto simp: silent_since_def)

lemma silent_since_enter:
  "silent_since s0 t s \<Longrightarrow> ticket (mQueuedActions s ! i) \<noteq> t \<Longrightarrow> silent_since s0 t (enter i s)"
  by (auto simp: silent_since_def)

lemma silent_since_D:
  "silent_since s0 t s \<Longrightarrow> t \<notin> set (fired_rev (events_since s0 s))"
  by (auto simp: silent_since_def)

lemma dead_exec:
  assumes "dead s t"
  shows "dead (exec es s) t \<and> silent_since s t (exec es s)"
proof -
  from assms have "dead s t \<and> silent_since s t s" by simp
  then show ?thesis
  proof (rule exec_invariant [where P = "\<lambda>s'. dead s' t \<and> silent_since s t s'", rotated -1])
    fix c s' assume "dead s' t \<and> silent_since s t s'"
    then show "dead (do_call c s') t \<and> silent_since s t (do_call c s')"
      by (simp add: dead_do_call silent_since_do_call)
  next
    fix i s' assume p: "dead s' t \<and> silent_since s t s'" and i: "i < length (mQueuedActions s')"
      and c: "\<not> isCancelled (mQueuedActions s' ! i)"
    from p i c have "ticket (mQueuedActions s' ! i) \<noteq> t" by (auto simp: dead_def)
    with p show "dead (enter i s') t \<and> silent_since s t (enter i s')"
      by (simp add: dead_enter silent_since_enter)
  next
    fix now i r s' assume "dead s' t \<and> silent_since s t s'"
    then show "dead (settle now r i s') t \<and> silent_since s t (settle now r i s')"
      by (simp add: dead_settle silent_since_cong [of "settle now r i s'" s'])
  next
    fix s' assume "dead s' t \<and> silent_since s t s'"
    then show "dead (snd (queuePending s')) t \<and> silent_since s t (snd (queuePending s'))"
      by (simp add: dead_queuePending silent_since_cong [of "snd (queuePending s')" s'])
  next
    fix s' assume "dead s' t \<and> silent_since s t s'"
    then show "dead (s'\<lparr>mQuit := False\<rparr>) t \<and> silent_since s t (s'\<lparr>mQuit := False\<rparr>)"
      by (simp add: dead_reset silent_since_cong [of "s'\<lparr>mQuit := False\<rparr>" s'])
  qed
qed

lemma do_calls_trace: "\<exists>ev. trace (do_calls cs s) = ev @ trace s \<and> fired_rev ev = []"
proof (induction cs arbitrary: s)
  case Nil
  then show ?case by simp
next
  case (Cons c cs)
  from do_call_trace [of c s] obtain e1 where
    e1: "trace (do_call c s) = e1 @ trace s" "fired_rev e1 = []" by blast
  from Cons [of "do_call c s"] obtain e2 where
    e2: "trace (do_calls cs (do_call c s)) = e2 @ trace (do_call c s)" "fired_rev e2 = []" by blast
  from e1 e2 have "trace (do_calls (c # cs) s) = (e2 @ e1) @ trace s \<and> fired_rev (e2 @ e1) = []"
    by simp
  then show ?case by blast
qed

lemma invoke_trace:
  "\<exists>ev. trace (snd (invoke i s)) = ev @ Fired (ticket (mQueuedActions s ! i)) (fst (invoke i s)) # trace s
     \<and> fired_rev ev = []"
  using do_calls_trace [of "fst (action (mQueuedActions s ! i) (invoked (mQueuedActions s ! i)))" "enter i s"]
  by (simp add: invoke_alt)

lemma invoke_ticket: "map ticket (mQueuedActions (snd (invoke i s))) = map ticket (mQueuedActions s)"
  by (rule all2_ages_ticket [OF invoke_ages])

lemma settle_ticket: "map ticket (mQueuedActions (settle now r i s)) = map ticket (mQueuedActions s)"
  by (rule all2_ages_ticket [OF settle_ages])

lemma nth_ticket:
  "map ticket q' = map ticket q \<Longrightarrow> i < length q \<Longrightarrow> ticket (q' ! i) = ticket (q ! i)"
proof -
  assume eq: "map ticket q' = map ticket q" and i: "i < length q"
  from eq have "length q' = length q" by (metis length_map)
  with i have "ticket (q' ! i) = map ticket q' ! i" by simp
  also from i have "\<dots> = ticket (q ! i)" by (simp add: eq)
  finally show ?thesis .
qed

lemma runQueued_loop_order:
  assumes "\<forall>i\<in>set is. i < length (mQueuedActions s)"
  shows "\<exists>ev. trace (snd (runQueued_loop now is s)) = ev @ trace s \<and>
           subseq (rev (fired_rev ev)) (map (\<lambda>i. ticket (mQueuedActions s ! i)) is)"
  using assms
proof (induction "is" arbitrary: s)
  case Nil
  then show ?case by simp
next
  case (Cons i "is")
  let ?f = "\<lambda>s i. ticket (mQueuedActions s ! i)"
  from Cons.prems have i: "i < length (mQueuedActions s)"
    and r: "\<forall>j\<in>set is. j < length (mQueuedActions s)" by simp_all
  show ?case
  proof (cases "\<not> isCancelled (mQueuedActions s ! i) \<and> triggerTime (mQueuedActions s ! i) \<le> now")
    case False
    from Cons.IH [OF r] obtain ev where
      ev: "trace (snd (runQueued_loop now is s)) = ev @ trace s"
      "subseq (rev (fired_rev ev)) (map (?f s) is)" by blast
    from ev(2) have "subseq (rev (fired_rev ev)) (map (?f s) (i # is))"
      by (simp add: list_emb_Cons)
    with ev(1) False show ?thesis by (auto simp: runQueued_loop_Cons)
  next
    case True
    from invoke_trace [of i s] obtain e1 where
      e1: "trace (snd (invoke i s)) = e1 @ Fired (?f s i) (fst (invoke i s)) # trace s"
      "fired_rev e1 = []" by blast
    have one: "subseq (rev (fired_rev (e1 @ [Fired (?f s i) (fst (invoke i s))]))) (map (?f s) (i # is))"
      using e1(2) by simp
    show ?thesis
    proof (cases "fst (invoke i s)")
      case Throw
      with True have "snd (runQueued_loop now (i # is) s) = snd (invoke i s)"
        by (simp add: runQueued_loop_Cons)
      with e1 one show ?thesis
        by (intro exI [of _ "e1 @ [Fired (?f s i) (fst (invoke i s))]"]) simp
    next
      case (Return rp)
      let ?s2 = "settle now rp i (snd (invoke i s))"
      have tr2: "trace ?s2 = (e1 @ [Fired (?f s i) (fst (invoke i s))]) @ trace s"
        using e1 by simp
      have tk: "map ticket (mQueuedActions ?s2) = map ticket (mQueuedActions s)"
        by (simp add: settle_ticket invoke_ticket)
      show ?thesis
      proof (cases "mQuit ?s2")
        case q: True
        with True Return have "snd (runQueued_loop now (i # is) s) = ?s2"
          by (simp add: runQueued_loop_Cons)
        with tr2 one show ?thesis
          by (intro exI [of _ "e1 @ [Fired (?f s i) (fst (invoke i s))]"]) simp
      next
        case q: False
        from r have r2: "\<forall>j\<in>set is. j < length (mQueuedActions ?s2)" by simp
        from Cons.IH [OF r2] obtain e2 where
          e2: "trace (snd (runQueued_loop now is ?s2)) = e2 @ trace ?s2"
          "subseq (rev (fired_rev e2)) (map (?f ?s2) is)" by blast
        have "map (?f ?s2) is = map (?f s) is"
          using r nth_ticket [OF tk] by simp
        with e2(2) have "subseq (?f s i # rev (fired_rev e2)) (map (?f s) (i # is))"
          by simp
        then have "subseq (rev (fired_rev (e2 @ e1 @ [Fired (?f s i) (fst (invoke i s))])))
            (map (?f s) (i # is))"
          using e1(2) by simp
        moreover from True Return q e2(1) tr2
        have "trace (snd (runQueued_loop now (i # is) s))
            = (e2 @ e1 @ [Fired (?f s i) (fst (invoke i s))]) @ trace s"
          by (simp add: runQueued_loop_Cons)
        ultimately show ?thesis by blast
      qed
    qed
  qed
qed

lemma map_nth_ticket:
  "map (\<lambda>i. ticket (q ! i)) [0..<length q] = map ticket q"
proof -
  have "map ticket (map (\<lambda>i. q ! i) [0..<length q]) = map ticket q"
    by (simp only: map_nth)
  then show ?thesis by (simp only: map_map comp_def)
qed

lemma runQueued_order:
  "subseq (rev (fired_rev (events_since s (snd (runQueued now s))))) (map ticket (mQueuedActions s))"
proof -
  have "\<forall>i\<in>set [0..<length (mQueuedActions s)]. i < length (mQueuedActions s)" by simp
  from runQueued_loop_order [OF this, of now] obtain ev where
    ev: "trace (snd (runQueued_loop now [0..<length (mQueuedActions s)] s)) = ev @ trace s"
    "subseq (rev (fired_rev ev))
       (map (\<lambda>i. ticket (mQueuedActions s ! i)) [0..<length (mQueuedActions s)])"
    by blast
  from ev(1) have "events_since s (snd (runQueued now s)) = ev"
    by (simp add: runQueued_def)
  with ev(2) show ?thesis by (simp only: map_nth_ticket)
qed

lemma marks_trigger: "marks a a' \<Longrightarrow> triggerTime a' = triggerTime a"
  by (auto simp: marks_def)

lemma do_calls_trigger:
  assumes "i < length (mQueuedActions s)"
  shows "triggerTime (mQueuedActions (do_calls cs s) ! i) = triggerTime (mQueuedActions s ! i)"
  using list_all2_nthD [OF do_calls_marks [of s cs] assms] by (rule marks_trigger)

lemma invoke_other_trigger:
  assumes "j \<noteq> i" and "i < length (mQueuedActions s)"
  shows "triggerTime (mQueuedActions (snd (invoke j s)) ! i) = triggerTime (mQueuedActions s ! i)"
proof -
  have "triggerTime (mQueuedActions (enter j s) ! i) = triggerTime (mQueuedActions s ! i)"
    using assms by (simp add: enter_def)
  with do_calls_trigger [of i "enter j s"] assms(2) show ?thesis
    by (simp add: invoke_alt)
qed

lemma settle_other_trigger:
  "j \<noteq> i \<Longrightarrow> triggerTime (mQueuedActions (settle now r j s) ! i) = triggerTime (mQueuedActions s ! i)"
  by (simp add: settle_def)

lemma silent_since_invoke:
  assumes "silent_since s0 t s" and "ticket (mQueuedActions s ! j) \<noteq> t"
  shows "silent_since s0 t (snd (invoke j s))"
proof -
  from assms(1) obtain e0 where e0: "trace s = e0 @ trace s0" "t \<notin> set (fired_rev e0)"
    by (auto simp: silent_since_def)
  from invoke_trace [of j s] obtain ev where
    ev: "trace (snd (invoke j s)) = ev @ Fired (ticket (mQueuedActions s ! j)) (fst (invoke j s)) # trace s"
    "fired_rev ev = []" by blast
  from e0 ev assms(2) have
    "trace (snd (invoke j s)) = (ev @ Fired (ticket (mQueuedActions s ! j)) (fst (invoke j s)) # e0) @ trace s0
     \<and> t \<notin> set (fired_rev (ev @ Fired (ticket (mQueuedActions s ! j)) (fst (invoke j s)) # e0))"
    by simp
  then show ?thesis unfolding silent_since_def by blast
qed

lemma runQueued_loop_frame:
  assumes d: "distinct (map ticket (mQueuedActions s))" and i: "i < length (mQueuedActions s)"
    and nd: "i \<notin> set is \<or> now < triggerTime (mQueuedActions s ! i)"
    and range: "\<forall>j\<in>set is. j < length (mQueuedActions s)"
  shows "waiting s i (triggerTime (mQueuedActions s ! i)) (ticket (mQueuedActions s ! i))
           (snd (runQueued_loop now is s))"
proof -
  let ?T = "triggerTime (mQueuedActions s ! i)" and ?t = "ticket (mQueuedActions s ! i)"
  let ?P = "waiting s i ?T ?t"
  have thr: "?P (snd (invoke j s1))"
    if p: "?P s1" and j: "j < length (mQueuedActions s1)" and m: "j \<in> set is"
      and due: "triggerTime (mQueuedActions s1 ! j) \<le> now" for j s1
  proof -
    from p have T: "triggerTime (mQueuedActions s1 ! i) = ?T"
      and tk: "map ticket (mQueuedActions s1) = map ticket (mQueuedActions s)"
      and si: "silent_since s ?t s1" by (simp_all add: waiting_def)
    from tk have len: "length (mQueuedActions s1) = length (mQueuedActions s)"
      by (metis length_map)
    from T due nd m have ne: "j \<noteq> i" by auto
    have "(map ticket (mQueuedActions s) ! j = map ticket (mQueuedActions s) ! i) = (j = i)"
      using d i j len by (intro nth_eq_iff_index_eq) simp_all
    with ne i j len have "ticket (mQueuedActions s ! j) \<noteq> ?t" by simp
    with nth_ticket [OF tk, of j] j len have "ticket (mQueuedActions s1 ! j) \<noteq> ?t" by simp
    with si have "silent_since s ?t (snd (invoke j s1))" by (rule silent_since_invoke)
    moreover have "triggerTime (mQueuedActions (snd (invoke j s1)) ! i) = ?T"
      using ne i len T by (simp add: invoke_other_trigger)
    moreover have "map ticket (mQueuedActions (snd (invoke j s1))) = map ticket (mQueuedActions s)"
      using tk by (simp add: invoke_ticket)
    ultimately show ?thesis by (simp add: waiting_def)
  qed
  have step: "?P (settle now r j (snd (invoke j s1)))"
    if p: "?P s1" and j: "j < length (mQueuedActions s1)" and m: "j \<in> set is"
      and due: "triggerTime (mQueuedActions s1 ! j) \<le> now" for j s1 r
  proof -
    from p have T: "triggerTime (mQueuedActions s1 ! i) = ?T" by (simp add: waiting_def)
    from T due nd m have ne: "j \<noteq> i" by auto
    from thr [OF p j m due] ne show ?thesis
      by (simp add: waiting_def settle_ticket settle_other_trigger
          silent_since_cong [of "settle now r j (snd (invoke j s1))" "snd (invoke j s1)"])
  qed
  have "?P s" by (simp add: waiting_def)
  moreover from range have "\<forall>j\<in>set is. j < length (mQueuedActions s) \<and> j \<in> set is" by simp
  ultimately have "(\<lambda>r. ?P (snd r)) (runQueued_loop now is s)"
    by (rule runQueued_loop_rule [where P = ?P and S = "set is"]) (auto intro: step thr)
  then show ?thesis .
qed

lemma queue_BA_eq:
  "queue_BA = \<lparr>mQueuedActions = [ManagedAction_new 102 idle 0 False 5,
                                 ManagedAction_new 101 idle 0 False 10],
      mPendingActions = [], mTicketCounter = 102, mQuit = False, assertFailed = False,
      trace = [Issued 102, Issued 101]\<rparr>"
  by (simp add: queue_BA_def Looper_new_def scheduleImpl_def log_def queuePending_def
      ManagedAction_new_def)

lemma no_fired_in: "fired_rev e = [] \<Longrightarrow> Fired t r \<notin> set e"
  using fired_rev_mem [of t e] by auto

lemma invoke_trigger:
  assumes "i < length (mQueuedActions s)"
  shows "triggerTime (mQueuedActions (snd (invoke j s)) ! i) = triggerTime (mQueuedActions s ! i)"
proof -
  have "triggerTime (mQueuedActions (enter j s) ! i) = triggerTime (mQueuedActions s ! i)"
    using assms by (cases "j = i") (simp_all add: enter_def)
  with do_calls_trigger [of i "enter j s"] assms show ?thesis
    by (simp add: invoke_alt)
qed

lemma runQueued_loop_ages:
  assumes "\<forall>i\<in>set is. i < length (mQueuedActions s)"
  shows "list_all2 ages (mQueuedActions s) (mQueuedActions (snd (runQueued_loop now is s)))"
proof -
  let ?P = "\<lambda>s'::Looper. list_all2 ages (mQueuedActions s) (mQueuedActions s')"
  have "?P s" by simp
  then show ?thesis
  proof (rule runQueued_loop_invariant [where P = ?P, rotated -2])
    show "\<forall>i\<in>set is. i < length (mQueuedActions s)" by (rule assms)
  next
    fix c s' assume "?P s'"
    then show "?P (do_call c s')"
      by (rule all2_ages_trans) (rule all2_marks_ages [OF do_call_marks])
  next
    fix i s' assume "?P s'"
    then show "?P (enter i s')" by (rule all2_ages_trans) (rule enter_ages)
  next
    fix i r s' assume "?P s'"
    then show "?P (settle now r i s')" by (rule all2_ages_trans) (rule settle_ages)
  qed
qed

lemma distinct_ticket_slot:
  assumes "distinct (map ticket q)" "i < length q" "j < length q" "ticket (q ! j) = ticket (q ! i)"
  shows "j = i"
proof -
  have "(map ticket q ! j = map ticket q ! i) = (j = i)"
    using assms(1-3) by (intro nth_eq_iff_index_eq) simp_all
  with assms show ?thesis by simp
qed

text \<open>One firing of slot \<open>j\<close>, seen from slot \<open>i\<close>.\<close>

lemma fire_step:
  fixes now :: Timepoint
  assumes i: "i < length (mQueuedActions s)" and j: "j < length (mQueuedActions s)"
    and r: "fst (invoke j s) = Return rp"
  defines "s2 \<equiv> settle now rp j (snd (invoke j s))"
  shows "ticket (mQueuedActions s2 ! i) = ticket (mQueuedActions s ! i)"
    and "interval (mQueuedActions s2 ! i) = interval (mQueuedActions s ! i)"
    and "catchUp (mQueuedActions s2 ! i) = catchUp (mQueuedActions s ! i)"
    and "isCancelled (mQueuedActions s ! i) \<Longrightarrow> isCancelled (mQueuedActions s2 ! i)"
    and "j \<noteq> i \<Longrightarrow> triggerTime (mQueuedActions s2 ! i) = triggerTime (mQueuedActions s ! i)"
    and "j = i \<Longrightarrow> rp \<Longrightarrow> triggerTime (mQueuedActions s2 ! i) =
          (if catchUp (mQueuedActions s ! i)
           then triggerTime (mQueuedActions s ! i) + interval (mQueuedActions s ! i)
           else now + interval (mQueuedActions s ! i))"
    and "j = i \<Longrightarrow> \<not> rp \<Longrightarrow> isCancelled (mQueuedActions s2 ! i)"
    and "map ticket (mQueuedActions s2) = map ticket (mQueuedActions s)"
proof -
  let ?s1 = "snd (invoke j s)"
  have a2: "list_all2 ages (mQueuedActions s) (mQueuedActions s2)"
    unfolding s2_def by (rule all2_ages_trans [OF invoke_ages settle_ages])
  from list_all2_nthD [OF a2 i] have ag: "ages (mQueuedActions s ! i) (mQueuedActions s2 ! i)" .
  from ag show "ticket (mQueuedActions s2 ! i) = ticket (mQueuedActions s ! i)"
    and "interval (mQueuedActions s2 ! i) = interval (mQueuedActions s ! i)"
    and "catchUp (mQueuedActions s2 ! i) = catchUp (mQueuedActions s ! i)"
    and "isCancelled (mQueuedActions s ! i) \<Longrightarrow> isCancelled (mQueuedActions s2 ! i)"
    by (simp_all add: ages_def)
  from a2 show "map ticket (mQueuedActions s2) = map ticket (mQueuedActions s)"
    by (rule all2_ages_ticket)
  have t1: "triggerTime (mQueuedActions ?s1 ! i) = triggerTime (mQueuedActions s ! i)"
    using i by (rule invoke_trigger)
  from list_all2_nthD [OF invoke_ages i, of j]
  have ag1: "ages (mQueuedActions s ! i) (mQueuedActions ?s1 ! i)" .
  show "triggerTime (mQueuedActions s2 ! i) = triggerTime (mQueuedActions s ! i)" if "j \<noteq> i"
    using that t1 by (simp add: s2_def settle_other_trigger)
  have upd: "mQueuedActions s2 ! i = reschedule now rp (mQueuedActions ?s1 ! i)" if "j = i"
    using that i by (simp add: s2_def settle_def)
  show "triggerTime (mQueuedActions s2 ! i) =
          (if catchUp (mQueuedActions s ! i)
           then triggerTime (mQueuedActions s ! i) + interval (mQueuedActions s ! i)
           else now + interval (mQueuedActions s ! i))" if "j = i" rp
    using that upd t1 ag1 by (simp add: reschedule_def ages_def)
  show "isCancelled (mQueuedActions s2 ! i)" if "j = i" "\<not> rp"
    using that upd by (simp add: reschedule_def)
qed

lemma runQueued_loop_slot:
  assumes "distinct (map ticket (mQueuedActions s))" and "i < length (mQueuedActions s)"
    and "\<forall>j\<in>set is. j < length (mQueuedActions s)" and "distinct is"
  shows "slot_result now s i (snd (runQueued_loop now is s))"
  using assms
proof (induction "is" arbitrary: s)
  case Nil
  then show ?case by (simp add: slot_result_def)
next
  case (Cons j js)
  let ?q = "mQueuedActions s"
  let ?t = "ticket (?q ! i)" and ?tj = "ticket (?q ! j)"
  let ?new = "if catchUp (?q ! i) then triggerTime (?q ! i) + interval (?q ! i)
              else now + interval (?q ! i)"
  from Cons.prems have d: "distinct (map ticket ?q)" and i: "i < length ?q"
    and j: "j < length ?q" and range: "\<forall>k\<in>set js. k < length ?q"
    and fresh: "j \<notin> set js" and djs: "distinct js" by simp_all
  have same: "j = i" if "?tj = ?t"
    using d i j that by (rule distinct_ticket_slot)
  show ?case
  proof (cases "\<not> isCancelled (?q ! j) \<and> triggerTime (?q ! j) \<le> now")
    case False
    then have "runQueued_loop now (j # js) s = runQueued_loop now js s"
      by (auto simp: runQueued_loop_Cons)
    with Cons.IH [OF d i range djs] show ?thesis by simp
  next
    case True
    from invoke_trace [of j s] obtain e1 where
      e1: "trace (snd (invoke j s)) = e1 @ Fired ?tj (fst (invoke j s)) # trace s"
      and q1: "fired_rev e1 = []" by blast
    note nf = no_fired_in [OF q1]
    show ?thesis
    proof (cases "fst (invoke j s)")
      case Throw
      with True have res: "snd (runQueued_loop now (j # js) s) = snd (invoke j s)"
        by (simp add: runQueued_loop_Cons)
      from e1 Throw have ev: "events_since s (snd (invoke j s)) = e1 @ [Fired ?tj Throw]"
        by simp
      from True same show ?thesis
        unfolding res slot_result_def ev using nf q1 by auto
    next
      case (Return rp)
      define s2 where "s2 = settle now rp j (snd (invoke j s))"
      note fs = fire_step [OF i j Return, of now, folded s2_def]
      from e1 Return have tr2: "trace s2 = (e1 @ [Fired ?tj (Return rp)]) @ trace s"
        by (simp add: s2_def)
      show ?thesis
      proof (cases "mQuit s2")
        case q: True
        with True Return have res: "snd (runQueued_loop now (j # js) s) = s2"
          by (simp add: runQueued_loop_Cons s2_def)
        from tr2 have ev: "events_since s s2 = e1 @ [Fired ?tj (Return rp)]" by simp
        have 1: "triggerTime (mQueuedActions s2 ! i) = ?new"
          if "Fired ?t (Return True) \<in> set (e1 @ [Fired ?tj (Return rp)])"
          using that nf same fs(6) by auto
        have 2: "isCancelled (mQueuedActions s2 ! i)"
          if "Fired ?t (Return False) \<in> set (e1 @ [Fired ?tj (Return rp)])"
          using that nf same fs(7) by auto
        have 3: "\<not> isCancelled (?q ! i) \<and> triggerTime (?q ! i) \<le> now"
          if "?t \<in> set (fired_rev (e1 @ [Fired ?tj (Return rp)]))"
          using that q1 same True by auto
        from 1 2 3 show ?thesis unfolding res slot_result_def ev by blast
      next
        case q: False
        let ?s' = "snd (runQueued_loop now js s2)"
        from True Return q have res: "snd (runQueued_loop now (j # js) s) = ?s'"
          by (simp add: runQueued_loop_Cons s2_def)
        have len2: "length (mQueuedActions s2) = length ?q"
          by (simp add: s2_def)
        from range len2 have range2: "\<forall>k\<in>set js. k < length (mQueuedActions s2)" by simp
        from d fs(8) have d2: "distinct (map ticket (mQueuedActions s2))" by simp
        from i len2 have i2: "i < length (mQueuedActions s2)" by simp
        from runQueued_loop_order [OF range2, of now] obtain e2 where
          e2: "trace ?s' = e2 @ trace s2" by blast
        then have ev2: "events_since s2 ?s' = e2" by simp
        from e2 tr2 have ev: "events_since s ?s' = e2 @ e1 @ [Fired ?tj (Return rp)]" by simp
        show ?thesis
        proof (cases "j = i")
          case eq: True
          with fresh have "i \<notin> set js \<or> now < triggerTime (mQueuedActions s2 ! i)" by simp
          from runQueued_loop_frame [OF d2 i2 this range2]
          have keep: "triggerTime (mQueuedActions ?s' ! i) = triggerTime (mQueuedActions s2 ! i)"
            and quiet: "?t \<notin> set (fired_rev e2)"
            using fs(1) ev2 by (auto simp: waiting_def dest: silent_since_D)
          from list_all2_nthD [OF runQueued_loop_ages [OF range2, of now] i2]
          have mono: "isCancelled (mQueuedActions s2 ! i) \<Longrightarrow> isCancelled (mQueuedActions ?s' ! i)"
            by (simp add: ages_def)
          from quiet have nf2: "Fired ?t r \<notin> set e2" for r
            using fired_rev_mem [of ?t e2] by blast
          have 1: "triggerTime (mQueuedActions ?s' ! i) = ?new"
            if "Fired ?t (Return True) \<in> set (e2 @ e1 @ [Fired ?tj (Return rp)])"
            using that nf nf2 eq fs(6) keep by auto
          have 2: "isCancelled (mQueuedActions ?s' ! i)"
            if "Fired ?t (Return False) \<in> set (e2 @ e1 @ [Fired ?tj (Return rp)])"
            using that nf nf2 eq fs(7) mono by auto
          from eq True have 3: "\<not> isCancelled (?q ! i) \<and> triggerTime (?q ! i) \<le> now" by simp
          from 1 2 3 show ?thesis unfolding res slot_result_def ev by blast
        next
          case ne: False
          with same have tne: "?tj \<noteq> ?t" by blast
          from Cons.IH [OF d2 i2 range2 djs, unfolded slot_result_def ev2]
          have ih1: "Fired (ticket (mQueuedActions s2 ! i)) (Return True) \<in> set e2 \<longrightarrow>
              triggerTime (mQueuedActions ?s' ! i) =
                (if catchUp (mQueuedActions s2 ! i)
                 then triggerTime (mQueuedActions s2 ! i) + interval (mQueuedActions s2 ! i)
                 else now + interval (mQueuedActions s2 ! i))"
            and ih2: "Fired (ticket (mQueuedActions s2 ! i)) (Return False) \<in> set e2 \<longrightarrow>
              isCancelled (mQueuedActions ?s' ! i)"
            and ih3: "ticket (mQueuedActions s2 ! i) \<in> set (fired_rev e2) \<longrightarrow>
              \<not> isCancelled (mQueuedActions s2 ! i) \<and> triggerTime (mQueuedActions s2 ! i) \<le> now"
            by blast+
          note eqs = fs(1,2,3) fs(5) [OF ne]
          have 1: "triggerTime (mQueuedActions ?s' ! i) = ?new"
            if "Fired ?t (Return True) \<in> set (e2 @ e1 @ [Fired ?tj (Return rp)])"
            using that nf tne ih1 unfolding eqs by auto
          have 2: "isCancelled (mQueuedActions ?s' ! i)"
            if "Fired ?t (Return False) \<in> set (e2 @ e1 @ [Fired ?tj (Return rp)])"
            using that nf tne ih2 unfolding eqs by auto
          have 3: "\<not> isCancelled (?q ! i) \<and> triggerTime (?q ! i) \<le> now"
            if "?t \<in> set (fired_rev (e2 @ e1 @ [Fired ?tj (Return rp)]))"
            using that q1 tne ih3 fs(4) unfolding eqs by auto
          from 1 2 3 show ?thesis unfolding res slot_result_def ev by blast
        qed
      qed
    qed
  qed
qed

lemma quiet_no_quit: "QuitCalled \<notin> set ev \<Longrightarrow> quiet_after_quit ev"
  by (induction ev rule: quiet_after_quit.induct) auto

lemma quiet_no_fired: "fired_rev e = [] \<Longrightarrow> quiet_after_quit (e @ ev) = quiet_after_quit ev"
  by (induction e rule: fired_rev.induct) auto

lemma quiet_append:
  "quiet_after_quit e \<Longrightarrow> QuitCalled \<notin> set ev \<Longrightarrow> quiet_after_quit (e @ ev)"
  by (induction e rule: quiet_after_quit.induct) (auto simp: quiet_no_quit)

lemma do_call_quit:
  "\<exists>ev. trace (do_call c s) = ev @ trace s \<and> fired_rev ev = [] \<and>
     (mQuit (do_call c s) \<longleftrightarrow> mQuit s \<or> QuitCalled \<in> set ev)"
  by (cases c) (simp_all only: do_call_eqs, auto)

lemma do_calls_quit:
  "\<exists>ev. trace (do_calls cs s) = ev @ trace s \<and> fired_rev ev = [] \<and>
     (mQuit (do_calls cs s) \<longleftrightarrow> mQuit s \<or> QuitCalled \<in> set ev)"
proof (induction cs arbitrary: s)
  case Nil
  then show ?case by simp
next
  case (Cons c cs)
  from do_call_quit [of c s] obtain e1 where
    e1: "trace (do_call c s) = e1 @ trace s" "fired_rev e1 = []"
    "mQuit (do_call c s) \<longleftrightarrow> mQuit s \<or> QuitCalled \<in> set e1" by blast
  from Cons [of "do_call c s"] obtain e2 where
    e2: "trace (do_calls cs (do_call c s)) = e2 @ trace (do_call c s)" "fired_rev e2 = []"
    "mQuit (do_calls cs (do_call c s)) \<longleftrightarrow> mQuit (do_call c s) \<or> QuitCalled \<in> set e2" by blast
  from e1 e2 have "trace (do_calls (c # cs) s) = (e2 @ e1) @ trace s \<and> fired_rev (e2 @ e1) = [] \<and>
     (mQuit (do_calls (c # cs) s) \<longleftrightarrow> mQuit s \<or> QuitCalled \<in> set (e2 @ e1))"
    by auto
  then show ?case by blast
qed

lemma invoke_quit:
  "\<exists>ev. trace (snd (invoke i s)) = ev @ Fired (ticket (mQueuedActions s ! i)) (fst (invoke i s)) # trace s
     \<and> fired_rev ev = [] \<and> (mQuit (snd (invoke i s)) \<longleftrightarrow> mQuit s \<or> QuitCalled \<in> set ev)"
  using do_calls_quit [of "fst (action (mQueuedActions s ! i) (invoked (mQueuedActions s ! i)))" "enter i s"]
  by (simp add: invoke_alt)

lemma invoke_quit_seen:
  assumes "no_quit s0 s"
  shows "quit_seen s0 (snd (invoke i s))"
proof -
  from assms obtain e0 where e0: "trace s = e0 @ trace s0" "QuitCalled \<notin> set e0" and q: "\<not> mQuit s"
    by (auto simp: no_quit_def)
  from invoke_quit [of i s] q obtain ev where
    ev: "trace (snd (invoke i s)) = ev @ Fired (ticket (mQueuedActions s ! i)) (fst (invoke i s)) # trace s"
    "fired_rev ev = []" "mQuit (snd (invoke i s)) \<longleftrightarrow> QuitCalled \<in> set ev" by auto
  let ?e = "ev @ Fired (ticket (mQueuedActions s ! i)) (fst (invoke i s)) # e0"
  from e0 ev have "trace (snd (invoke i s)) = ?e @ trace s0" by simp
  moreover from e0 ev(2) have "quiet_after_quit ?e"
    by (simp add: quiet_no_fired quiet_no_quit)
  moreover from e0 ev(3) have "QuitCalled \<in> set ?e \<longleftrightarrow> mQuit (snd (invoke i s))" by auto
  ultimately show ?thesis unfolding quit_seen_def by blast
qed

lemma quit_seen_settle: "quit_seen s0 s \<Longrightarrow> quit_seen s0 (settle now r i s)"
  by (simp add: quit_seen_def)

lemma quit_seen_no_quit: "quit_seen s0 s \<Longrightarrow> \<not> mQuit s \<Longrightarrow> no_quit s0 s"
  by (auto simp: quit_seen_def no_quit_def)

lemma no_quit_quit_seen: "no_quit s0 s \<Longrightarrow> quit_seen s0 s"
  by (auto simp: quit_seen_def no_quit_def quiet_no_quit)

lemma runQueued_loop_quit:
  assumes "\<not> mQuit s" and "\<forall>i\<in>set is. i < length (mQueuedActions s)"
  shows "quit_seen s (snd (runQueued_loop now is s))"
proof -
  from assms(1) have "no_quit s s" by (simp add: no_quit_def)
  moreover from assms(2) have "\<forall>i\<in>set is. i < length (mQueuedActions s) \<and> i \<in> UNIV" by simp
  ultimately have "(\<lambda>r. quit_seen s (snd r)) (runQueued_loop now is s)"
  proof (rule runQueued_loop_rule [where P = "no_quit s" and S = UNIV])
    fix i s1 r assume p: "no_quit s s1"
    let ?s2 = "settle now r i (snd (invoke i s1))"
    from invoke_quit_seen [OF p, of i] have qs: "quit_seen s ?s2" by (rule quit_seen_settle)
    then show "if mQuit ?s2 then quit_seen s (snd (False, ?s2)) else no_quit s ?s2"
      by (simp add: quit_seen_no_quit)
  next
    fix i s1 assume p: "no_quit s s1"
    from invoke_quit_seen [OF p, of i] show "quit_seen s (snd (True, snd (invoke i s1)))" by simp
  next
    fix s1 assume "no_quit s s1"
    then show "quit_seen s (snd (False, s1))" by (simp add: no_quit_quit_seen)
  qed
  then show ?thesis .
qed

lemma runQueued_quit: "\<not> mQuit s \<Longrightarrow> quit_seen s (snd (runQueued now s))"
  unfolding runQueued_def by (rule runQueued_loop_quit) simp_all

lemma run_ok_extend:
  assumes "run_ok s1 rs" and "trace s1 = e @ trace s0" and "QuitCalled \<notin> set e"
  shows "run_ok s0 rs"
proof -
  from assms(1) obtain ev where ev: "trace (snd rs) = ev @ trace s1" "quiet_after_quit ev"
    "QuitCalled \<in> set ev \<longrightarrow> fst rs = Returned \<or> fst rs = Unwound"
    "fst rs = Returned \<longrightarrow> QuitCalled \<in> set ev" and na: "fst rs \<noteq> Aborted"
    by (auto simp: run_ok_def)
  from ev assms(2,3) have "trace (snd rs) = (ev @ e) @ trace s0 \<and> quiet_after_quit (ev @ e) \<and>
     (QuitCalled \<in> set (ev @ e) \<longrightarrow> fst rs = Returned \<or> fst rs = Unwound) \<and>
     (fst rs = Returned \<longrightarrow> QuitCalled \<in> set (ev @ e))"
    by (auto simp: quiet_append)
  with na show ?thesis unfolding run_ok_def by blast
qed

lemma arrive_trace:
  "\<exists>ev. trace (arrive as s) = ev @ trace s \<and> QuitCalled \<notin> set ev \<and> mQuit (arrive as s) = mQuit s"
proof (induction as arbitrary: s)
  case Nil
  then show ?case by simp
next
  case (Cons a as)
  obtain b trig iv cu where a: "a = (b, trig, iv, cu)" by (cases a)
  let ?s1 = "do_call (Schedule b trig iv cu) s"
  have s1: "trace ?s1 = [Issued (mTicketCounter s + 1)] @ trace s" "mQuit ?s1 = mQuit s"
    by (simp_all only: do_call_eqs, simp_all)
  from Cons [of ?s1] obtain ev where
    ev: "trace (arrive as ?s1) = ev @ trace ?s1" "QuitCalled \<notin> set ev"
    "mQuit (arrive as ?s1) = mQuit ?s1" by blast
  from s1 ev have "trace (arrive (a # as) s) = (ev @ [Issued (mTicketCounter s + 1)]) @ trace s \<and>
      QuitCalled \<notin> set (ev @ [Issued (mTicketCounter s + 1)]) \<and>
      mQuit (arrive (a # as) s) = mQuit s"
    unfolding a by (simp only: arrive.simps) simp
  then show ?case by blast
qed

lemma run_loop_ok: "\<not> mQuit s \<Longrightarrow> run_ok s (run_loop ts s)"
proof (induction ts arbitrary: s)
  case Nil
  then show ?case by (simp add: run_ok_def)
next
  case (Cons t ts)
  obtain arr now now2 where t: "t = (arr, now, now2)" by (cases t)
  let ?s2 = "snd (queuePending (arrive arr s))"
  let ?s3 = "snd (runQueued now2 ?s2)"
  from arrive_trace [of arr s] Cons.prems obtain ea where
    ea: "trace ?s2 = ea @ trace s" "QuitCalled \<notin> set ea" and q2: "\<not> mQuit ?s2"
    by auto
  show ?case
  proof (cases "fst (queuePending (arrive arr s)) \<le> now")
    case False
    then have "run_loop (t # ts) s = run_loop ts ?s2" by (simp add: t run_loop_Cons)
    with run_ok_extend [OF Cons.IH [OF q2] ea] show ?thesis by simp
  next
    case True
    from runQueued_quit [OF q2, of now2] obtain ep where
      ep: "trace ?s3 = ep @ trace ?s2" "quiet_after_quit ep" "QuitCalled \<in> set ep \<longleftrightarrow> mQuit ?s3"
      by (auto simp: quit_seen_def)
    show ?thesis
    proof (cases "fst (runQueued now2 ?s2)")
      case thr: True
      with True q2 have r: "run_loop (t # ts) s = (Unwound, ?s3)" by (simp add: t run_loop_Cons)
      from ep have "run_ok ?s2 (Unwound, ?s3)" by (auto simp: run_ok_def)
      from run_ok_extend [OF this ea] r show ?thesis by simp
    next
      case thr: False
      show ?thesis
      proof (cases "mQuit ?s3")
        case False
        with True q2 thr have r: "run_loop (t # ts) s = run_loop ts ?s3"
          by (simp add: t run_loop_Cons)
        from ep False have nq: "QuitCalled \<notin> set ep" by simp
        from run_ok_extend [OF Cons.IH [OF False] ep(1) nq]
        have "run_ok ?s2 (run_loop ts ?s3)" .
        from run_ok_extend [OF this ea] r show ?thesis by simp
      next
        case q3: True
        with True q2 thr have r: "run_loop (t # ts) s = (Returned, snd (queuePending ?s3))"
          by (simp add: t run_loop_Cons)
        from ep q3 have "run_ok ?s2 (Returned, snd (queuePending ?s3))"
          by (auto simp: run_ok_def)
        from run_ok_extend [OF this ea] r show ?thesis by simp
      qed
    qed
  qed
qed

lemma run_ok_run: "run_ok s (run ts s)"
proof -
  have "run_ok (s\<lparr>mQuit := False\<rparr>) (run_loop ts (s\<lparr>mQuit := False\<rparr>))"
    by (rule run_loop_ok) simp
  then show ?thesis by (simp add: run_def run_ok_def)
qed

lemma dead_after_quit:
  assumes "t \<le> mTicketCounter s"
  shows "dead (quit s) t"
  using assms by (simp add: dead_def)


































lemma do_call_length [simp]:
  "length (mQueuedActions (do_call c s)) = length (mQueuedActions s)"
  using do_call_marks [of s c] by (simp add: list_all2_lengthD)












lemma arrive_mQuit [simp]: "mQuit (arrive as s) = mQuit s"
  using arrive_trace [of as s] by blast


section \<open>The claims\<close>

text \<open>
  C2. From a state whose pending entries are not cancelled and whose trigger times are
  values of \<^verbatim>\<open>Timepoint\<close>, \<^verbatim>\<open>queuePending\<close> leaves pending empty, makes
  the queue the pending entries followed by the non-cancelled queued ones (so every
  non-cancelled pending entry is moved and no cancelled entry is left), returns the
  least trigger time of the new queue, or \<^verbatim>\<open>Timepoint::max()\<close> when it is empty,
  and called again returns the same time and state.
\<close>

theorem queuePending_reconciles:
  assumes live: "no_cancelled_pending s" and rep: "representable s"
  shows "case queuePending s of (w, s') \<Rightarrow>
     mPendingActions s' = [] \<and>
     mQueuedActions s' = mPendingActions s @ filter (\<lambda>a. \<not> isCancelled a) (mQueuedActions s) \<and>
     (\<forall>a\<in>set (mPendingActions s). \<not> isCancelled a \<longrightarrow> a \<in> set (mQueuedActions s')) \<and>
     (\<forall>a\<in>set (mQueuedActions s'). \<not> isCancelled a) \<and>
     w = (if mQueuedActions s' = [] then Timepoint_max
          else Min (triggerTime ` set (mQueuedActions s'))) \<and>
     queuePending s' = (w, s')"
proof -
  define q where "q = mPendingActions s @ filter (\<lambda>a. \<not> isCancelled a) (mQueuedActions s)"
  define s' where "s' = s\<lparr>mQueuedActions := q, mPendingActions := []\<rparr>"
  define w where "w = wakeTime_loop q Timepoint_max"
  have qp: "queuePending s = (w, s')"
    by (simp add: queuePending_def requeue_eq Let_def q_def s'_def w_def)
  have alive: "\<forall>a\<in>set q. \<not> isCancelled a"
    using live by (auto simp: no_cancelled_pending_def q_def)
  have bound: "\<forall>a\<in>set q. triggerTime a \<le> Timepoint_max"
    using rep by (auto simp: representable_def q_def)
  have w: "w = (if q = [] then Timepoint_max else Min (triggerTime ` set q))"
  proof (cases "q = []")
    case True
    then show ?thesis by (simp add: w_def)
  next
    case False
    from wakeTime_loop_Min [OF False bound] False show ?thesis by (simp add: w_def)
  qed
  have same: "filter (\<lambda>a. \<not> isCancelled a) q = q"
    using alive by (intro filter_True) simp
  have again: "queuePending s' = (w, s')"
    using same by (simp add: queuePending_def requeue_eq Let_def s'_def w_def)
  have fields: "mPendingActions s' = []" "mQueuedActions s' = q"
    by (simp_all add: s'_def)
  have moved: "\<forall>a\<in>set (mPendingActions s). \<not> isCancelled a \<longrightarrow> a \<in> set q"
    by (simp add: q_def)
  show ?thesis
    unfolding qp prod.case fields
    using alive w again moved q_def by blast
qed

theorem queuePending_reconciles_witness:
  "no_cancelled_pending two_pending \<and> representable two_pending \<and>
   fst (queuePending two_pending) = 30 \<and>
   mPendingActions (snd (queuePending two_pending)) = [] \<and>
   map ticket (mQueuedActions (snd (queuePending two_pending))) = [101, 102]"
proof -
  have l: "no_cancelled_pending two_pending"
    by (simp add: no_cancelled_pending_def two_pending_def scheduleImpl_def Looper_new_def
        ManagedAction_new_def)
  have r: "representable two_pending"
    by (simp add: representable_def two_pending_def scheduleImpl_def Looper_new_def
        ManagedAction_new_def Timepoint_max_def)
  have q: "mQueuedActions two_pending = []"
    "map triggerTime (mPendingActions two_pending) = [70, 30]"
    "map ticket (mPendingActions two_pending) = [101, 102]"
    by (simp_all add: two_pending_def scheduleImpl_def Looper_new_def ManagedAction_new_def)
  from queuePending_reconciles [OF l r] q l r show ?thesis
    by (auto simp: image_set simp del: set_map split: prod.splits)
qed

text \<open>
  C5, as amended. In every execution of one looper, from its construction, the tickets
  that \<^verbatim>\<open>schedule\<close> has returned are strictly increasing in the order of the
  calls, hence pairwise distinct, and each is greater than 100. This holds for calls
  from outside the loop, for arrivals during \<^verbatim>\<open>run\<close> and for calls a body makes.
  The counter is a member of the looper: uniqueness is per looper, not per process.
\<close>

theorem tickets_increase_per_looper:
  "sorted_wrt (<) (issued (exec es Looper_new)) \<and> distinct (issued (exec es Looper_new)) \<and>
   (\<forall>t\<in>set (issued (exec es Looper_new)). 100 < t)"
proof -
  from issue_ok_exec [OF issue_ok_new, of es]
  have ok: "sorted_wrt (>) (issued_rev (trace (exec es Looper_new)))"
    "\<forall>t\<in>set (issued_rev (trace (exec es Looper_new))). 100 < t"
    by (simp_all add: issue_ok_def)
  from ok(1) have "sorted_wrt (<) (issued (exec es Looper_new))"
    by (simp add: issued_def sorted_wrt_rev)
  moreover from this have "distinct (issued (exec es Looper_new))"
    using strict_sorted_iff by blast
  ultimately show ?thesis using ok(2) by (simp add: issued_def)
qed

text \<open>
  The amended C5 on two calls of \<^verbatim>\<open>schedule\<close>: they return 101 and 102.
\<close>

theorem tickets_increase_per_looper_witness:
  "issued (exec [Call (Schedule idle 5 0 False), Call (Schedule idle 7 0 False)] Looper_new)
     = [101, 102] \<and>
   sorted_wrt (<)
     (issued (exec [Call (Schedule idle 5 0 False), Call (Schedule idle 7 0 False)] Looper_new))"
  using tickets_increase_per_looper
    [of "[Call (Schedule idle 5 0 False), Call (Schedule idle 7 0 False)]"]
  by (simp add: issued_def scheduleImpl_def log_def Looper_new_def ManagedAction_new_def)

text \<open>
  C5 as stated fails: two loopers of one process, one \<^verbatim>\<open>schedule\<close> on each, and
  both calls return the ticket 101.
\<close>

theorem tickets_not_process_unique:
  "set (issued (exec [Call (Schedule idle 10 0 False)] Looper_new)) \<inter>
   set (issued (exec [Call (Schedule idle 20 0 False)] Looper_new)) \<noteq> {}"
  by (simp add: issued_def scheduleImpl_def log_def Looper_new_def ManagedAction_new_def)

text \<open>
  C10. In every state a looper can reach from its construction, whatever is called and
  whatever the bodies do, no pending action is flagged cancelled, and the assertion of
  \<^verbatim>\<open>tryCancelPending\<close> has never been violated.
\<close>

theorem pending_never_cancelled:
  "no_cancelled_pending (exec es Looper_new) \<and> \<not> assertFailed (exec es Looper_new)"
  using invar_exec [OF invar_new, of es] by (simp add: invar_def)

text \<open>
  C10 on an execution that cancels a pending action: the action is removed, the
  assertion holds.
\<close>

theorem pending_never_cancelled_witness:
  "no_cancelled_pending
     (exec [Call (Schedule idle 5 0 False), Call (Schedule idle 7 0 False), Call (Cancel 101)]
        Looper_new) \<and>
   \<not> assertFailed
     (exec [Call (Schedule idle 5 0 False), Call (Schedule idle 7 0 False), Call (Cancel 101)]
        Looper_new) \<and>
   map ticket (mPendingActions
     (exec [Call (Schedule idle 5 0 False), Call (Schedule idle 7 0 False), Call (Cancel 101)]
        Looper_new)) = [102]"
  using pending_never_cancelled
    [of "[Call (Schedule idle 5 0 False), Call (Schedule idle 7 0 False), Call (Cancel 101)]"]
  by (simp add: scheduleImpl_def log_def Looper_new_def ManagedAction_new_def cancel_def
      tryCancelQueued_def tryCancelPending_def)

text \<open>
  C7. In a state that satisfies the invariant, \<^verbatim>\<open>cancel(t)\<close> returns true exactly
  when some queued or pending action has the ticket \<open>t\<close> and is not flagged
  cancelled; otherwise it returns false, and in neither case does an assertion fail.
  It is \<^verbatim>\<open>tryCancelQueued\<close>, followed by \<^verbatim>\<open>tryCancelPending\<close> only when the
  former returned false.
\<close>

theorem cancel_found_iff:
  assumes "invar s"
  shows "(fst (cancel t s) \<longleftrightarrow>
            (\<exists>a\<in>set (mQueuedActions s @ mPendingActions s). ticket a = t \<and> \<not> isCancelled a)) \<and>
         \<not> assertFailed (snd (cancel t s)) \<and>
         cancel t s = (if fst (tryCancelQueued t s) then tryCancelQueued t s
                       else tryCancelPending t (snd (tryCancelQueued t s)))"
proof -
  from assms have ok: "tickets_ok s" and ncp: "no_cancelled_pending s" by (simp_all add: invar_def)
  from ok have d: "distinct (map ticket (mQueuedActions s))" by (simp add: tickets_ok_alt)
  have p: "tryCancelPending_loop t (mPendingActions s) \<noteq> None \<longleftrightarrow>
      (\<exists>a\<in>set (mPendingActions s). ticket a = t \<and> \<not> isCancelled a)"
    using ncp by (auto simp: tcp_None_iff no_cancelled_pending_def)
  have 1: "fst (cancel t s) \<longleftrightarrow>
      (\<exists>a\<in>set (mQueuedActions s @ mPendingActions s). ticket a = t \<and> \<not> isCancelled a)"
    unfolding cancel_result tcq_True_iff [OF d] p by auto
  from invar_cancel [OF assms] have 2: "\<not> assertFailed (snd (cancel t s))"
    by (simp add: invar_def)
  have 3: "cancel t s = (if fst (tryCancelQueued t s) then tryCancelQueued t s
                       else tryCancelPending t (snd (tryCancelQueued t s)))"
    by (cases "tryCancelQueued t s") (simp add: cancel_def)
  from 1 2 3 show ?thesis by blast
qed

text \<open>
  C7 on a state with a live queued action (101), a cancelled queued action (102), a
  pending action (103) and an unknown ticket (104).
\<close>

theorem cancel_found_iff_witness:
  "invar three_actions \<and> fst (cancel 101 three_actions) \<and> \<not> fst (cancel 102 three_actions) \<and>
   fst (cancel 103 three_actions) \<and> \<not> fst (cancel 104 three_actions)"
proof -
  have i: "invar three_actions"
    by (simp add: invar_def tickets_ok_def no_cancelled_pending_def three_actions_def)
  have q: "map ticket (mQueuedActions three_actions) = [101, 102]"
    "map isCancelled (mQueuedActions three_actions) = [False, True]"
    "map ticket (mPendingActions three_actions) = [103]"
    "map isCancelled (mPendingActions three_actions) = [False]"
    by (simp_all add: three_actions_def)
  from q have s: "set (mQueuedActions three_actions @ mPendingActions three_actions) =
      {ManagedAction_new 101 idle 0 False 10,
       (ManagedAction_new 102 idle 0 False 20)\<lparr>isCancelled := True\<rparr>,
       ManagedAction_new 103 idle 0 False 30}"
    by (auto simp: three_actions_def)
  note c = cancel_found_iff [OF i, THEN conjunct1, unfolded s]
  from c [of 101] c [of 102] c [of 103] c [of 104] i
  show ?thesis by simp
qed

text \<open>
  C1. (1) In every execution of a looper from its construction, no body is invoked
  after a \<^verbatim>\<open>cancel\<close> of its ticket has returned true; this covers a cancel made by
  a body in the middle of a pass. (2) In a state that satisfies the invariant, a
  \<^verbatim>\<open>cancel(t)\<close> that returns true leaves every queued action with ticket \<open>t\<close>
  flagged cancelled and no pending action with ticket \<open>t\<close>. (3) From such a state
  no execution invokes a body with ticket \<open>t\<close>, and the ticket stays dead.
\<close>

theorem cancel_guarantee:
  "no_fire_after_cancel (trace (exec es Looper_new)) \<and>
   (invar s \<and> fst (cancel t s) \<longrightarrow> dead (snd (cancel t s)) t) \<and>
   (dead s t \<longrightarrow> t \<notin> set (fired_rev (events_since s (exec es' s))) \<and> dead (exec es' s) t)"
proof (intro conjI impI)
  from cancel_sound_exec [OF invar_new cancel_sound_new, of es]
  show "no_fire_after_cancel (trace (exec es Looper_new))" by (simp add: cancel_sound_def)
next
  assume "invar s \<and> fst (cancel t s)"
  then show "dead (snd (cancel t s)) t" by (simp add: cancel_dead)
next
  assume "dead s t"
  from dead_exec [OF this, of es'] show "t \<notin> set (fired_rev (events_since s (exec es' s)))"
    by (simp add: silent_since_D)
next
  assume "dead s t"
  from dead_exec [OF this, of es'] show "dead (exec es' s) t" by simp
qed

text \<open>
  C1 on concrete executions. Two actions are due in one pass and the body of the
  first cancels the second: the second never runs. In the state \<open>three_actions\<close> a
  pass at time 50 runs the action 101; after \<^verbatim>\<open>cancel(101)\<close> the same pass runs
  nothing.
\<close>

theorem cancel_guarantee_witness:
  "trace (exec [Call (Schedule cancels_102 0 0 False), Call (Schedule idle 0 0 False),
                QueuePending, RunQueued 10] Looper_new)
     = [Cancelled 102, Fired 101 (Return False), Issued 102, Issued 101] \<and>
   invar three_actions \<and> fst (cancel 101 three_actions) \<and>
   dead (snd (cancel 101 three_actions)) 101 \<and>
   fired_rev (events_since three_actions (exec [RunQueued 50] three_actions)) = [101] \<and>
   101 \<notin> set (fired_rev (events_since (snd (cancel 101 three_actions))
                 (exec [RunQueued 50] (snd (cancel 101 three_actions)))))"
proof -
  have tr: "trace (exec [Call (Schedule cancels_102 0 0 False), Call (Schedule idle 0 0 False),
                QueuePending, RunQueued 10] Looper_new)
     = [Cancelled 102, Fired 101 (Return False), Issued 102, Issued 101]"
    by (simp add: Looper_new_def scheduleImpl_def log_def queuePending_def runQueued_def
        runQueued_loop_Cons invoke_alt enter_def settle_def reschedule_def idle_def
        cancels_102_def upt_rec ManagedAction_new_def cancel_def tryCancelQueued_def)
  have i: "invar three_actions"
    by (simp add: invar_def tickets_ok_def no_cancelled_pending_def three_actions_def)
  have c: "fst (cancel 101 three_actions)"
    by (simp add: cancel_def tryCancelQueued_def three_actions_def)
  have f: "fired_rev (events_since three_actions (exec [RunQueued 50] three_actions)) = [101]"
    by (simp add: three_actions_def runQueued_def runQueued_loop_Cons invoke_alt enter_def
        settle_def reschedule_def idle_def events_since_def upt_rec ManagedAction_new_def)
  note g = cancel_guarantee [of "[]" three_actions 101, THEN conjunct2, THEN conjunct1]
  from g i c have d: "dead (snd (cancel 101 three_actions)) 101" by simp
  note h = cancel_guarantee [of "[]" "snd (cancel 101 three_actions)" 101 "[RunQueued 50]",
      THEN conjunct2, THEN conjunct2]
  from h d have "101 \<notin> set (fired_rev (events_since (snd (cancel 101 three_actions))
                 (exec [RunQueued 50] (snd (cancel 101 three_actions)))))" by simp
  with tr i c d f show ?thesis by simp
qed

text \<open>
  C9, as amended. After \<^verbatim>\<open>setMainLooper\<close>, \<^verbatim>\<open>mainLooper\<close> returns the looper set
  last. (Before any \<^verbatim>\<open>setMainLooper\<close> the call is undefined: setting the main
  looper first is a precondition of the accessor.)
\<close>

theorem mainLooper_after_set:
  "mainLooper (setMainLooper l sMainLooper) = Value l"
  by (simp add: mainLooper_def setMainLooper_def)

text \<open>
  C9 as stated fails: when no looper has been set, \<^verbatim>\<open>mainLooper\<close> neither fails in
  a defined way nor returns a sentinel; it dereferences the null pointer.
\<close>

theorem mainLooper_unset_undefined:
  "mainLooper sMainLooper_init = UndefinedBehaviour"
  by (simp add: mainLooper_def sMainLooper_init_def)

text \<open>
  C6, as amended. (1) A reconciliation makes the queue the pending actions, in the
  order of their insertion, followed by the queued actions that are not cancelled, in
  their order. (2) In a pass the bodies are invoked in the order of the queue: the
  tickets fired, oldest first, are a subsequence of the tickets of the queue. (3) An
  action that is not yet due is not invoked in the pass and keeps its slot, ticket and
  trigger time, so the next cycle meets it again.
\<close>

theorem fire_in_queue_order:
  "mQueuedActions (snd (queuePending s))
     = mPendingActions s @ filter (\<lambda>a. \<not> isCancelled a) (mQueuedActions s) \<and>
   subseq (rev (fired_rev (events_since s (snd (runQueued now s)))))
     (map ticket (mQueuedActions s)) \<and>
   (tickets_ok s \<and> i < length (mQueuedActions s) \<and> now < triggerTime (mQueuedActions s ! i) \<longrightarrow>
      ticket (mQueuedActions s ! i) \<notin> set (fired_rev (events_since s (snd (runQueued now s)))) \<and>
      triggerTime (mQueuedActions (snd (runQueued now s)) ! i) = triggerTime (mQueuedActions s ! i) \<and>
      map ticket (mQueuedActions (snd (runQueued now s))) = map ticket (mQueuedActions s))"
proof (intro conjI impI)
  show "mQueuedActions (snd (queuePending s))
     = mPendingActions s @ filter (\<lambda>a. \<not> isCancelled a) (mQueuedActions s)"
    by simp
next
  show "subseq (rev (fired_rev (events_since s (snd (runQueued now s)))))
     (map ticket (mQueuedActions s))"
    by (rule runQueued_order)
next
  assume a: "tickets_ok s \<and> i < length (mQueuedActions s) \<and> now < triggerTime (mQueuedActions s ! i)"
  then have d: "distinct (map ticket (mQueuedActions s))" by (simp add: tickets_ok_alt)
  have r: "\<forall>j\<in>set [0..<length (mQueuedActions s)]. j < length (mQueuedActions s)" by simp
  from a runQueued_loop_frame [OF d _ _ r, of i now]
  have w: "waiting s i (triggerTime (mQueuedActions s ! i)) (ticket (mQueuedActions s ! i))
      (snd (runQueued now s))"
    by (simp add: runQueued_def)
  from w show "ticket (mQueuedActions s ! i) \<notin> set (fired_rev (events_since s (snd (runQueued now s))))"
    by (simp add: waiting_def silent_since_D)
  from w show "triggerTime (mQueuedActions (snd (runQueued now s)) ! i) = triggerTime (mQueuedActions s ! i)"
    by (simp add: waiting_def)
  from w show "map ticket (mQueuedActions (snd (runQueued now s))) = map ticket (mQueuedActions s)"
    by (simp add: waiting_def)
qed

text \<open>
  The amended C6 on the queue B, A at time 7: B is due and runs; A, in slot 1, is not
  due, does not run and keeps its trigger time 10.
\<close>

theorem fire_in_queue_order_witness:
  "tickets_ok queue_BA \<and> 1 < length (mQueuedActions queue_BA) \<and>
   7 < triggerTime (mQueuedActions queue_BA ! 1) \<and>
   map ticket (mQueuedActions queue_BA) = [102, 101] \<and>
   rev (fired_rev (events_since queue_BA (snd (runQueued 7 queue_BA)))) = [102] \<and>
   triggerTime (mQueuedActions (snd (runQueued 7 queue_BA)) ! 1) = 10"
proof -
  have ok: "tickets_ok queue_BA"
    by (simp add: queue_BA_eq tickets_ok_def)
  have q: "1 < length (mQueuedActions queue_BA)" "7 < triggerTime (mQueuedActions queue_BA ! 1)"
    "map ticket (mQueuedActions queue_BA) = [102, 101]"
    "triggerTime (mQueuedActions queue_BA ! 1) = 10"
    by (simp_all add: queue_BA_eq)
  have f: "rev (fired_rev (events_since queue_BA (snd (runQueued 7 queue_BA)))) = [102]"
    by (simp add: queue_BA_eq runQueued_def runQueued_loop_Cons invoke_alt enter_def
        settle_def reschedule_def idle_def events_since_def upt_rec ManagedAction_new_def)
  from fire_in_queue_order [of queue_BA 7 1, THEN conjunct2, THEN conjunct2] ok q
  have "triggerTime (mQueuedActions (snd (runQueued 7 queue_BA)) ! 1) = 10" by simp
  with ok q f show ?thesis by simp
qed

text \<open>
  C6 as stated fails. In the run \<open>overtaking\<close> the action A (ticket 101) was
  inserted into pending before B (ticket 102), both are due in the pass at time 20,
  and the body of B is invoked before the body of A.
\<close>

theorem insertion_order_counterexample:
  "issued (exec overtaking Looper_new) = [101, 102] \<and>
   rev (fired_rev (trace (exec overtaking Looper_new))) = [102, 101]"
  by (simp add: overtaking_def run_def run_loop_Cons Looper_new_def scheduleImpl_def log_def
      queuePending_def ManagedAction_new_def Timepoint_max_def issued_def
      runQueued_def runQueued_loop_Cons invoke_alt enter_def settle_def reschedule_def idle_def
      upt_rec)

text \<open>
  C3. Let a pass of \<^verbatim>\<open>runQueued\<close> at time \<open>now\<close> start in a state with distinct
  tickets, and take the action in any slot of the queue. If during the pass its body
  is invoked and returns true, then after the pass its trigger time is its old trigger
  time plus its interval when \<open>catchUp\<close> is set, and \<open>now\<close> plus its interval
  otherwise. If its body is invoked and returns false, then after the pass the action
  is flagged cancelled. Its body is invoked only if the action was not cancelled and
  was due.
\<close>

theorem reschedule_after_firing:
  assumes "tickets_ok s" and "i < length (mQueuedActions s)"
  shows
    "(Fired (ticket (mQueuedActions s ! i)) (Return True)
        \<in> set (events_since s (snd (runQueued now s))) \<longrightarrow>
      triggerTime (mQueuedActions (snd (runQueued now s)) ! i) =
        (if catchUp (mQueuedActions s ! i)
         then triggerTime (mQueuedActions s ! i) + interval (mQueuedActions s ! i)
         else now + interval (mQueuedActions s ! i))) \<and>
     (Fired (ticket (mQueuedActions s ! i)) (Return False)
        \<in> set (events_since s (snd (runQueued now s))) \<longrightarrow>
      isCancelled (mQueuedActions (snd (runQueued now s)) ! i)) \<and>
     (ticket (mQueuedActions s ! i) \<in> set (fired_rev (events_since s (snd (runQueued now s)))) \<longrightarrow>
      \<not> isCancelled (mQueuedActions s ! i) \<and> triggerTime (mQueuedActions s ! i) \<le> now)"
proof -
  from assms(1) have d: "distinct (map ticket (mQueuedActions s))" by (simp add: tickets_ok_alt)
  have "slot_result now s i (snd (runQueued_loop now [0..<length (mQueuedActions s)] s))"
    using d assms(2) by (rule runQueued_loop_slot) simp_all
  then show ?thesis by (simp only: slot_result_def runQueued_def)
qed

text \<open>
  C3 on the queue \<open>three_due\<close> and a pass at time 350: the three bodies run, the
  action with catch-up is due again at 100, the one without at 450, and the third is
  flagged cancelled.
\<close>

theorem reschedule_after_firing_witness:
  "tickets_ok three_due \<and>
   events_since three_due (snd (runQueued 350 three_due))
     = [Fired 103 (Return False), Fired 102 (Return True), Fired 101 (Return True)] \<and>
   triggerTime (mQueuedActions (snd (runQueued 350 three_due)) ! 0) = 100 \<and>
   triggerTime (mQueuedActions (snd (runQueued 350 three_due)) ! 1) = 450 \<and>
   isCancelled (mQueuedActions (snd (runQueued 350 three_due)) ! 2)"
proof -
  have ok: "tickets_ok three_due"
    by (simp add: three_due_def tickets_ok_def)
  have ev: "events_since three_due (snd (runQueued 350 three_due))
     = [Fired 103 (Return False), Fired 102 (Return True), Fired 101 (Return True)]"
    by (simp add: three_due_def runQueued_def runQueued_loop_Cons invoke_alt enter_def
        settle_def reschedule_def idle_def repeats_def events_since_def upt_rec
        ManagedAction_new_def)
  have q: "length (mQueuedActions three_due) = 3"
    "map ticket (mQueuedActions three_due) = [101, 102, 103]"
    "map catchUp (mQueuedActions three_due) = [True, False, False]"
    "map interval (mQueuedActions three_due) = [100, 100, 0]"
    "map triggerTime (mQueuedActions three_due) = [0, 0, 0]"
    by (simp_all add: three_due_def)
  have n: "mQueuedActions three_due ! 0 = ManagedAction_new 101 repeats 100 True 0"
    "mQueuedActions three_due ! 1 = ManagedAction_new 102 repeats 100 False 0"
    "mQueuedActions three_due ! 2 = ManagedAction_new 103 idle 0 False 0"
    by (simp_all add: three_due_def)
  note r = reschedule_after_firing [OF ok, of _ 350, unfolded ev]
  from r [of 0] q n
  have 0: "triggerTime (mQueuedActions (snd (runQueued 350 three_due)) ! 0) = 100" by simp
  from r [of 1] q n
  have 1: "triggerTime (mQueuedActions (snd (runQueued 350 three_due)) ! 1) = 450" by simp
  from r [of 2] q n
  have 2: "isCancelled (mQueuedActions (snd (runQueued 350 three_due)) ! 2)" by simp
  from ok ev 0 1 2 show ?thesis by simp
qed

text \<open>
  C8. (1) \<^verbatim>\<open>quit\<close> is \<^verbatim>\<open>cancelAll\<close> followed by setting \<open>mQuit\<close>: every
  queued action is flagged cancelled in place, the pending sequence is emptied, and
  the flag is set. (2) No action that was queued or pending when \<^verbatim>\<open>quit\<close> was
  called has its body invoked in any later execution. (3) In every call of
  \<^verbatim>\<open>run\<close>, whatever the clock, the arrivals and the bodies do, no body is invoked
  after a call of \<^verbatim>\<open>quit\<close>; once \<^verbatim>\<open>quit\<close> has been called \<^verbatim>\<open>run\<close> ends (it
  returns, or the body that called \<^verbatim>\<open>quit\<close> throws), and \<^verbatim>\<open>run\<close> returns only
  after a call of \<^verbatim>\<open>quit\<close>.
\<close>

theorem quit_cancels_all_and_stops:
  "quit s = (cancelAll s)\<lparr>mQuit := True\<rparr> \<and>
   mQueuedActions (quit s) = map (\<lambda>a. a\<lparr>isCancelled := True\<rparr>) (mQueuedActions s) \<and>
   mPendingActions (quit s) = [] \<and> mQuit (quit s) \<and>
   (tickets_ok s \<longrightarrow>
      (\<forall>a\<in>set (mQueuedActions s @ mPendingActions s).
         ticket a \<notin> set (fired_rev (events_since (quit s) (exec es (quit s)))))) \<and>
   quiet_after_quit (events_since s (snd (run ts s))) \<and>
   (QuitCalled \<in> set (events_since s (snd (run ts s))) \<longrightarrow>
      fst (run ts s) = Returned \<or> fst (run ts s) = Unwound) \<and>
   (fst (run ts s) = Returned \<longrightarrow> QuitCalled \<in> set (events_since s (snd (run ts s))))"
proof -
  have 1: "quit s = (cancelAll s)\<lparr>mQuit := True\<rparr>" by (simp add: quit_def)
  have 2: "tickets_ok s \<longrightarrow>
      (\<forall>a\<in>set (mQueuedActions s @ mPendingActions s).
         ticket a \<notin> set (fired_rev (events_since (quit s) (exec es (quit s)))))"
  proof (intro impI ballI)
    fix a assume ok: "tickets_ok s" and a: "a \<in> set (mQueuedActions s @ mPendingActions s)"
    then have "ticket a \<le> mTicketCounter s" by (simp add: tickets_ok_def)
    then have "dead (quit s) (ticket a)" by (rule dead_after_quit)
    from dead_exec [OF this, of es]
    show "ticket a \<notin> set (fired_rev (events_since (quit s) (exec es (quit s))))"
      by (simp add: silent_since_D)
  qed
  from run_ok_run [of s ts] obtain ev where ev: "trace (snd (run ts s)) = ev @ trace s"
    "quiet_after_quit ev" "QuitCalled \<in> set ev \<longrightarrow> fst (run ts s) = Returned \<or> fst (run ts s) = Unwound"
    "fst (run ts s) = Returned \<longrightarrow> QuitCalled \<in> set ev"
    by (auto simp: run_ok_def)
  from ev(1) have "events_since s (snd (run ts s)) = ev" by simp
  with ev 1 2 show ?thesis by simp
qed

text \<open>
  C8 on concrete executions. In the run \<open>quitting_run\<close> the first body calls
  \<^verbatim>\<open>quit\<close>: the second action, due in the same pass, is not invoked, \<^verbatim>\<open>run\<close>
  returns without using the second tick, and its last reconciliation leaves the queue
  empty. After \<^verbatim>\<open>quit\<close> in the state \<open>three_due\<close>, a pass at time 350 invokes
  nothing.
\<close>

theorem quit_cancels_all_and_stops_witness:
  "fst (run quitting_run Looper_new) = Returned \<and>
   trace (snd (run quitting_run Looper_new))
     = [QuitCalled, Fired 101 (Return True), Issued 102, Issued 101] \<and>
   mQueuedActions (snd (run quitting_run Looper_new)) = [] \<and>
   quiet_after_quit (events_since Looper_new (snd (run quitting_run Looper_new))) \<and>
   tickets_ok three_due \<and>
   101 \<notin> set (fired_rev (events_since (quit three_due) (exec [RunQueued 350] (quit three_due)))) \<and>
   fired_rev (events_since (quit three_due) (exec [RunQueued 350] (quit three_due))) = []"
proof -
  have r: "run quitting_run Looper_new =
      (Returned, \<lparr>mQueuedActions = [], mPendingActions = [], mTicketCounter = 102,
         mQuit = True, assertFailed = False,
         trace = [QuitCalled, Fired 101 (Return True), Issued 102, Issued 101]\<rparr>)"
    by (simp add: quitting_run_def run_def run_loop_Cons Looper_new_def scheduleImpl_def log_def
        queuePending_def ManagedAction_new_def Timepoint_max_def runQueued_def
        runQueued_loop_Cons invoke_alt enter_def settle_def reschedule_def idle_def quits_def
        upt_rec quit_def cancelAll_def cancelAllQueued_def cancelAllPending_def)
  have ok: "tickets_ok three_due"
    by (simp add: three_due_def tickets_ok_def)
  have f: "fired_rev (events_since (quit three_due) (exec [RunQueued 350] (quit three_due))) = []"
    by (simp add: three_due_def quit_def cancelAll_def cancelAllQueued_def cancelAllPending_def
        runQueued_def runQueued_loop_Cons events_since_def upt_rec ManagedAction_new_def)
  note q = quit_cancels_all_and_stops [of Looper_new "[]" quitting_run]
  from q have "quiet_after_quit (events_since Looper_new (snd (run quitting_run Looper_new)))"
    by blast
  moreover have m: "ManagedAction_new 101 repeats 100 True 0
      \<in> set (mQueuedActions three_due @ mPendingActions three_due)"
    by (simp add: three_due_def)
  from quit_cancels_all_and_stops [of three_due "[RunQueued 350]" "[]"] ok
  have "\<forall>a\<in>set (mQueuedActions three_due @ mPendingActions three_due).
      ticket a \<notin> set (fired_rev (events_since (quit three_due) (exec [RunQueued 350] (quit three_due))))"
    by blast
  from bspec [OF this m]
  have "101 \<notin> set (fired_rev (events_since (quit three_due) (exec [RunQueued 350] (quit three_due))))"
    by simp
  ultimately show ?thesis using r ok f by simp
qed




end
